theory Spec2Isabelle
  imports
    Main
    "HOL-Library.Word"
    "HOL-Library.Multiset"
    "HOL-Library.Sublist"
    "HOL-Library.Char_ord"
    "HOL-Library.List_Lexorder"
begin

section \<open>Data model (sysinfo.go)\<close>

text \<open>
  Go strings are byte sequences: \<open>string\<close> (a list of 8-bit characters).  Go's \<open>int\<close> is
  modelled as a HOL \<open>int\<close> that always lies in the range of the target's word size, with
  every conversion and multiplication wrapped explicitly (see \<open>wrap\<close> below).  \<open>float64\<close>
  values are opaque: the type parameter \<open>'f\<close> stands for them and the parser
  \<open>strconv.ParseFloat\<close> is a parameter of the scanner.
\<close>

type_synonym Implementer = "8 word"
type_synonym Part = "16 word"

record Cache =
  Inst :: int
  L1 :: int
  L2 :: int
  L3 :: int
  Alignment :: int
  Flush :: int

record AddrSizes =
  Phys :: int
  Virt :: int

record TLB =
  N :: int
  PageSize :: int

record 'f CPU =
  Proc :: int
  BogoMIPS :: 'f
  Features :: "string list"
  Rev :: int
  ModelName :: string
  MicroArch :: string
  Impl :: Implementer
  Arch :: int
  Variant :: int
  Part :: Part
  VendorID :: string
  Family :: int
  Model :: int
  Microcode :: int
  Freq :: 'f
  Cache :: Cache
  PhysID :: int
  Siblings :: int
  CoreID :: int
  Cores :: int
  APICID :: int
  InitAPICID :: int
  FPU :: bool
  FPUExceptions :: bool
  CPUIDLevel :: int
  WP :: bool
  Bugs :: "string list"
  AddrSizes :: AddrSizes
  PowerMgmt :: string
  TLB :: TLB

record Pair =
  Key :: string
  Value :: string

record 'f Info =
  CPUs :: "'f CPU list"
  Misc :: "Pair list"

section \<open>Implementer and part codes\<close>

definition ARMLtd :: Implementer where "ARMLtd = 0x41"
definition Broadcom :: Implementer where "Broadcom = 0x42"
definition Cavium :: Implementer where "Cavium = 0x43"
definition Fujitsu :: Implementer where "Fujitsu = 0x46"
definition NVIDIA :: Implementer where "NVIDIA = 0x4E"
definition HiSilicon :: Implementer where "HiSilicon = 0x48"
definition Qualcomm :: Implementer where "Qualcomm = 0x51"
definition Samsung :: Implementer where "Samsung = 0x53"
definition Intel :: Implementer where "Intel = 0x69"
definition Apple :: Implementer where "Apple = 0x61"

definition ARM926EJS :: Part where "ARM926EJS = 0x926"
definition ARM11MPCore :: Part where "ARM11MPCore = 0xb02"
definition ARM1136JS :: Part where "ARM1136JS = 0xb36"
definition ARM1156T2S :: Part where "ARM1156T2S = 0xb56"
definition ARM1176JZS :: Part where "ARM1176JZS = 0xb76"
definition CortexA8 :: Part where "CortexA8 = 0xc08"
definition CortexA9 :: Part where "CortexA9 = 0xc09"
definition CortexA15 :: Part where "CortexA15 = 0xc0f"
definition CortexM0 :: Part where "CortexM0 = 0xc20"
definition CortexM3 :: Part where "CortexM3 = 0xc23"
definition CortexM4 :: Part where "CortexM4 = 0xc24"
definition CortexM55 :: Part where "CortexM55 = 0xd22"
definition CortexA34 :: Part where "CortexA34 = 0xd02"
definition CortexA35 :: Part where "CortexA35 = 0xd04"
definition CortexA53 :: Part where "CortexA53 = 0xd03"
definition CortexA55 :: Part where "CortexA55 = 0xd05"
definition CortexA57 :: Part where "CortexA57 = 0xd07"
definition CortexA72 :: Part where "CortexA72 = 0xd08"
definition CortexA73 :: Part where "CortexA73 = 0xd09"
definition CortexA75 :: Part where "CortexA75 = 0xd0a"
definition CortexA76 :: Part where "CortexA76 = 0xd0b"
definition CortexA77 :: Part where "CortexA77 = 0xd0d"
definition CortexA78 :: Part where "CortexA78 = 0xd41"
definition CortexX1 :: Part where "CortexX1 = 0xd44"
definition CortexX1C :: Part where "CortexX1C = 0xd4c"
definition NeoverseN1 :: Part where "NeoverseN1 = 0xd0c"
definition NeoverseN2 :: Part where "NeoverseN2 = 0xd49"
definition NeoverseV1 :: Part where "NeoverseV1 = 0xd40"
definition Firestorm :: Part where "Firestorm = 0x23"
definition Icestorm :: Part where "Icestorm = 0x22"

definition armPartName :: "Part \<Rightarrow> string" where
  "armPartName p =
    (if p = ARM926EJS then ''ARM926EJ-S''
     else if p = ARM11MPCore then ''ARM11 MPCore''
     else if p = ARM1136JS then ''ARM1136J-S''
     else if p = ARM1156T2S then ''ARM1156T2-S''
     else if p = ARM1176JZS then ''ARM1176JZ-S''
     else if p = CortexA8 then ''Cortex-A8''
     else if p = CortexA9 then ''Cortex-A9''
     else if p = CortexA15 then ''Cortex-A15''
     else if p = CortexM0 then ''Cortex-M0''
     else if p = CortexM3 then ''Cortex-M3''
     else if p = CortexM4 then ''Cortex-M4''
     else if p = CortexM55 then ''Cortex-M55''
     else if p = CortexA34 then ''Cortex-A34''
     else if p = CortexA35 then ''Cortex-A35''
     else if p = CortexA53 then ''Cortex-A53''
     else if p = CortexA55 then ''Cortex-A55''
     else if p = CortexA57 then ''Cortex-A57''
     else if p = CortexA72 then ''Cortex-A72''
     else if p = CortexA73 then ''Cortex-A73''
     else if p = CortexA75 then ''Cortex-A75''
     else if p = CortexA76 then ''Cortex-A76''
     else if p = CortexA77 then ''Cortex-A77''
     else if p = CortexA78 then ''Cortex-A78''
     else if p = CortexX1 then ''Cortex-X1''
     else if p = CortexX1C then ''Cortex-X1C''
     else if p = NeoverseN1 then ''neoverse-n1''
     else if p = NeoverseN2 then ''neoverse-n2''
     else if p = NeoverseV1 then ''neoverse-v1''
     else if p = Firestorm then ''M1 Firestorm''
     else if p = Icestorm then ''M1 Icestorm''
     else ''generic'')"

text \<open>Broadcom/Cavium\<close>

definition ThunderX2T99 :: Part where "ThunderX2T99 = 0x516"
definition ThunderX2T99_2 :: Part where "ThunderX2T99_2 = 0xaf"
definition ThunderXT88 :: Part where "ThunderXT88 = 0xa1"

definition broadcomPartName :: "Part \<Rightarrow> string" where
  "broadcomPartName p =
    (if p = ThunderX2T99 \<or> p = ThunderX2T99_2 then ''ThunderX2T99''
     else if p = ThunderXT88 then ''ThunderXT88''
     else ''generic'')"

text \<open>Fujitsu\<close>

definition A64FX :: Part where "A64FX = 0x001"

definition fujitsuPartName :: "Part \<Rightarrow> string" where
  "fujitsuPartName p = (if p = A64FX then ''A64FX'' else ''generic'')"

text \<open>NVIDIA\<close>

definition Carmel :: Part where "Carmel = 0x004"

definition nvidiaPartName :: "Part \<Rightarrow> string" where
  "nvidiaPartName p = (if p = Carmel then ''Carmel'' else ''generic'')"

text \<open>HiSilicon\<close>

definition TSV110 :: Part where "TSV110 = 0xd01"

definition hiSiliconPartName :: "Part \<Rightarrow> string" where
  "hiSiliconPartName p = (if p = TSV110 then ''TSV110'' else ''generic'')"

text \<open>Qualcomm\<close>

definition Krait :: Part where "Krait = 0x06f"
definition Kryo :: Part where "Kryo = 0x201"
definition Kryo_2 :: Part where "Kryo_2 = 0x205"
definition Kryo_3 :: Part where "Kryo_3 = 0x211"
definition Kryo2xxGold :: Part where "Kryo2xxGold = 0x800"
definition Kryo2xxSilver :: Part where "Kryo2xxSilver = 0x801"
definition Kryo3xxGold :: Part where "Kryo3xxGold = 0x802"
definition Kryo3xxSilver :: Part where "Kryo3xxSilver = 0x803"
definition Kryo4xxGold :: Part where "Kryo4xxGold = 0x804"
definition Kryo4xxSilver :: Part where "Kryo4xxSilver = 0x805"
definition Falkor :: Part where "Falkor = 0xc00"
definition Saphira :: Part where "Saphira = 0xc01"

definition qualcommPartName :: "Part \<Rightarrow> string" where
  "qualcommPartName p =
    (if p = Krait then ''Krait''
     else if p = Kryo \<or> p = Kryo_2 \<or> p = Kryo_3 then ''Kryo''
     else if p = Kryo2xxGold \<or> p = Kryo2xxSilver then ''Cortex-A73''
     else if p = Kryo3xxGold \<or> p = Kryo3xxSilver then ''Cortex-A75''
     else if p = Kryo4xxGold \<or> p = Kryo4xxSilver then ''Cortex-A76''
     else if p = Falkor then ''Falkor''
     else if p = Saphira then ''Saphira''
     else ''generic'')"

definition samsungPartName :: "Part \<Rightarrow> string" where
  "samsungPartName p = ''generic''"

definition Name :: "('f, 'z) CPU_scheme \<Rightarrow> string" where
  "Name c =
    (if Impl c = ARMLtd then armPartName (Part c)
     else if Impl c = Broadcom \<or> Impl c = Cavium then broadcomPartName (Part c)
     else if Impl c = Fujitsu then fujitsuPartName (Part c)
     else if Impl c = NVIDIA then nvidiaPartName (Part c)
     else if Impl c = HiSilicon then hiSiliconPartName (Part c)
     else if Impl c = Qualcomm then qualcommPartName (Part c)
     else if Impl c = Samsung then samsungPartName (Part c)
     else ''generic'')"

text \<open>
  The case labels of the part switch that \<open>CPU.Name\<close> selects for an implementer
  (\<open>None\<close>: the implementer falls to the \<open>default\<close> branch and no part switch is consulted).
\<close>

definition armParts :: "Part list" where
  "armParts =
    [ARM926EJS, ARM11MPCore, ARM1136JS, ARM1156T2S, ARM1176JZS, CortexA8, CortexA9,
     CortexA15, CortexM0, CortexM3, CortexM4, CortexM55, CortexA34, CortexA35, CortexA53,
     CortexA55, CortexA57, CortexA72, CortexA73, CortexA75, CortexA76, CortexA77,
     CortexA78, CortexX1, CortexX1C, NeoverseN1, NeoverseN2, NeoverseV1, Firestorm,
     Icestorm]"

definition broadcomParts :: "Part list" where
  "broadcomParts = [ThunderX2T99, ThunderX2T99_2, ThunderXT88]"

definition qualcommParts :: "Part list" where
  "qualcommParts =
    [Krait, Kryo, Kryo_2, Kryo_3, Kryo2xxGold, Kryo2xxSilver, Kryo3xxGold, Kryo3xxSilver,
     Kryo4xxGold, Kryo4xxSilver, Falkor, Saphira]"

definition partCases :: "Implementer \<Rightarrow> Part list option" where
  "partCases i =
    (if i = ARMLtd then Some armParts
     else if i = Broadcom \<or> i = Cavium then Some broadcomParts
     else if i = Fujitsu then Some [A64FX]
     else if i = NVIDIA then Some [Carmel]
     else if i = HiSilicon then Some [TSV110]
     else if i = Qualcomm then Some qualcommParts
     else if i = Samsung then Some []
     else None)"

section \<open>The Go library functions the package calls\<close>

text \<open>
  The functions of this section belong to the Go standard library, not to the package.
  Each is modelled from its documented behaviour, on byte strings.
\<close>

subsection \<open>Package strings\<close>

text \<open>\<open>strings.IndexByte(s, c)\<close>: index of the first \<open>c\<close> in \<open>s\<close>, or \<open>-1\<close>.\<close>

fun IndexByte :: "string \<Rightarrow> char \<Rightarrow> int" where
  "IndexByte [] c = -1"
| "IndexByte (x # xs) c =
    (if x = c then 0 else (let i = IndexByte xs c in if i < 0 then -1 else i + 1))"

text \<open>\<open>strings.Index(s, sep)\<close>: index of the first occurrence of \<open>sep\<close> in \<open>s\<close>, or \<open>-1\<close>.\<close>

fun Index :: "string \<Rightarrow> string \<Rightarrow> int" where
  "Index [] sep = (if sep = [] then 0 else -1)"
| "Index (x # xs) sep =
    (if prefix sep (x # xs) then 0
     else (let i = Index xs sep in if i < 0 then -1 else i + 1))"

definition HasSuffix :: "string \<Rightarrow> string \<Rightarrow> bool" where
  "HasSuffix s suf = suffix suf s"

definition TrimSuffix :: "string \<Rightarrow> string \<Rightarrow> string" where
  "TrimSuffix s suf = (if HasSuffix s suf then take (length s - length suf) s else s)"

text \<open>
  \<open>strings.Split(s, sep)\<close> for a one-byte separator: the pieces between the separators, a
  single empty piece for the empty string.
\<close>

fun Split :: "string \<Rightarrow> char \<Rightarrow> string list" where
  "Split [] sep = [[]]"
| "Split (x # xs) sep =
    (if x = sep then [] # Split xs sep
     else (case Split xs sep of [] \<Rightarrow> [[x]] | y # ys \<Rightarrow> (x # y) # ys))"

text \<open>
  \<open>strings.TrimSpace\<close> removes leading and trailing white space as Unicode defines it
  (\<open>unicode.IsSpace\<close>), decoding the string as UTF-8.  The white-space runes are the six
  ASCII ones and U+0085, U+00A0, U+1680, U+2000 to U+200A, U+2028, U+2029, U+202F, U+205F,
  U+3000; \<open>spaceEncodings\<close> lists their UTF-8 encodings.  An encoding at the start of a
  string decodes to its rune, and so does one at the end, since the backward decoder stops at
  the nearest lead byte.
\<close>

definition spaceEncodings :: "string list" where
  "spaceEncodings =
    [[CHR 0x09], [CHR 0x0A], [CHR 0x0B], [CHR 0x0C], [CHR 0x0D], [CHR 0x20],
     [CHR 0xC2, CHR 0x85], [CHR 0xC2, CHR 0xA0],
     [CHR 0xE1, CHR 0x9A, CHR 0x80],
     [CHR 0xE2, CHR 0x80, CHR 0x80], [CHR 0xE2, CHR 0x80, CHR 0x81],
     [CHR 0xE2, CHR 0x80, CHR 0x82], [CHR 0xE2, CHR 0x80, CHR 0x83],
     [CHR 0xE2, CHR 0x80, CHR 0x84], [CHR 0xE2, CHR 0x80, CHR 0x85],
     [CHR 0xE2, CHR 0x80, CHR 0x86], [CHR 0xE2, CHR 0x80, CHR 0x87],
     [CHR 0xE2, CHR 0x80, CHR 0x88], [CHR 0xE2, CHR 0x80, CHR 0x89],
     [CHR 0xE2, CHR 0x80, CHR 0x8A],
     [CHR 0xE2, CHR 0x80, CHR 0xA8], [CHR 0xE2, CHR 0x80, CHR 0xA9],
     [CHR 0xE2, CHR 0x80, CHR 0xAF], [CHR 0xE2, CHR 0x81, CHR 0x9F],
     [CHR 0xE3, CHR 0x80, CHR 0x80]]"

text \<open>The width in bytes of the white-space rune a string starts (ends) with, 0 if none.\<close>

definition leadingSpace :: "string \<Rightarrow> nat" where
  "leadingSpace s = (case find (\<lambda>e. prefix e s) spaceEncodings of None \<Rightarrow> 0 | Some e \<Rightarrow> length e)"

definition trailingSpace :: "string \<Rightarrow> nat" where
  "trailingSpace s = (case find (\<lambda>e. suffix e s) spaceEncodings of None \<Rightarrow> 0 | Some e \<Rightarrow> length e)"

function TrimLeftSpace :: "string \<Rightarrow> string" where
  "TrimLeftSpace s =
    (if leadingSpace s = 0 then s else TrimLeftSpace (drop (leadingSpace s) s))"
  by pat_completeness auto
termination
proof (relation "measure length")
  show "wf (measure length)" by simp
next
  fix s :: string
  assume "leadingSpace s \<noteq> 0"
  moreover have "leadingSpace s \<le> length s"
    by (auto simp: leadingSpace_def find_Some_iff prefix_def split: option.splits)
  ultimately show "(drop (leadingSpace s) s, s) \<in> measure length" by simp
qed

function TrimRightSpace :: "string \<Rightarrow> string" where
  "TrimRightSpace s =
    (if trailingSpace s = 0 then s else TrimRightSpace (take (length s - trailingSpace s) s))"
  by pat_completeness auto
termination
proof (relation "measure length")
  show "wf (measure length)" by simp
next
  fix s :: string
  assume "trailingSpace s \<noteq> 0"
  moreover have "trailingSpace s \<le> length s"
    by (auto simp: trailingSpace_def find_Some_iff suffix_def split: option.splits)
  ultimately show "(take (length s - trailingSpace s) s, s) \<in> measure length" by simp
qed

declare TrimLeftSpace.simps [simp del] TrimRightSpace.simps [simp del]

definition TrimSpace :: "string \<Rightarrow> string" where
  "TrimSpace s = TrimRightSpace (TrimLeftSpace s)"

subsection \<open>Package strconv\<close>

text \<open>
  \<open>strconv.ParseUint(s, 0, bitSize)\<close>, the only way the package calls it: base 0 takes the
  base from the prefix (\<open>0b\<close>, \<open>0o\<close>, \<open>0x\<close>; a lone leading \<open>0\<close> means octal; decimal
  otherwise) and allows underscores between digits.  The accumulator is a \<open>uint64\<close>, kept
  here as a \<open>nat\<close> with the wrap-around modulo \<open>2 ^ 64\<close> written out.  The result is the
  value together with the error, \<open>None\<close> for \<open>nil\<close>.  The calls pass
  \<open>bitSize = bits.UintSize\<close>, which is 32 or 64, so the function's base and bit size
  errors cannot arise and are left out.
\<close>

datatype NumError = ErrSyntax | ErrRange

definition lower :: "nat \<Rightarrow> nat" where
  "lower c = or c 32"

definition isDigit :: "nat \<Rightarrow> bool" where
  "isDigit c = (48 \<le> c \<and> c \<le> 57)"

definition isLetter :: "nat \<Rightarrow> bool" where
  "isLetter c = (97 \<le> lower c \<and> lower c \<le> 122)"

definition maxUint64 :: nat where
  "maxUint64 = 2 ^ 64 - 1"

text \<open>
  The digit loop of \<open>ParseUint\<close>: \<open>Inl (n, underscores)\<close> when the loop runs to the end,
  \<open>Inr\<close> with the returned pair when it returns early.
\<close>

fun parseDigits ::
  "nat \<Rightarrow> nat \<Rightarrow> nat \<Rightarrow> nat \<Rightarrow> bool \<Rightarrow> string \<Rightarrow> (nat \<times> bool) + (nat \<times> NumError)" where
  "parseDigits base cutoff maxVal n us [] = Inl (n, us)"
| "parseDigits base cutoff maxVal n us (ch # cs) =
    (let c = of_char ch :: nat in
     if c = 95 then parseDigits base cutoff maxVal n True cs
     else if \<not> isDigit c \<and> \<not> isLetter c then Inr (0, ErrSyntax)
     else
       (let d = (if isDigit c then c - 48 else lower c - 97 + 10) in
        if d \<ge> base then Inr (0, ErrSyntax)
        else if n \<ge> cutoff then Inr (maxVal, ErrRange)
        else
          (let n' = (n * base) mod 2 ^ 64;
               n1 = (n' + d) mod 2 ^ 64
           in if n1 < n' \<or> n1 > maxVal then Inr (maxVal, ErrRange)
              else parseDigits base cutoff maxVal n1 us cs)))"

datatype Saw = SawStart | SawDigit | SawUnderscore | SawOther

fun underscoreLoop :: "bool \<Rightarrow> Saw \<Rightarrow> string \<Rightarrow> bool" where
  "underscoreLoop hex saw [] = (saw \<noteq> SawUnderscore)"
| "underscoreLoop hex saw (ch # cs) =
    (let c = of_char ch :: nat in
     if isDigit c \<or> (hex \<and> 97 \<le> lower c \<and> lower c \<le> 102) then underscoreLoop hex SawDigit cs
     else if c = 95 then (if saw \<noteq> SawDigit then False else underscoreLoop hex SawUnderscore cs)
     else if saw = SawUnderscore then False
     else underscoreLoop hex SawOther cs)"

definition underscoreOK :: "string \<Rightarrow> bool" where
  "underscoreOK s0 =
    (let s = (case s0 of ch # r \<Rightarrow> if ch = CHR ''-'' \<or> ch = CHR ''+'' then r else s0 | [] \<Rightarrow> s0)
     in case s of
          z # p # r \<Rightarrow>
            if z = CHR ''0'' \<and> lower (of_char p) \<in> {98, 111, 120}
            then underscoreLoop (lower (of_char p) = 120) SawDigit r
            else underscoreLoop False SawStart s
        | _ \<Rightarrow> underscoreLoop False SawStart s)"

text \<open>The base and the digits that remain after the prefix, for base 0.\<close>

definition basePrefix :: "string \<Rightarrow> nat \<times> string" where
  "basePrefix s =
    (case s of
       z # r \<Rightarrow>
         if z = CHR ''0'' then
           (case r of
              p # q \<Rightarrow>
                if q \<noteq> [] \<and> lower (of_char p) = 98 then (2, q)
                else if q \<noteq> [] \<and> lower (of_char p) = 111 then (8, q)
                else if q \<noteq> [] \<and> lower (of_char p) = 120 then (16, q)
                else (8, r)
            | [] \<Rightarrow> (8, r))
         else (10, s)
     | [] \<Rightarrow> (10, s))"

text \<open>\<open>maxVal := uint64(1)<<uint(bitSize) - 1\<close>, in \<open>uint64\<close> arithmetic.\<close>

definition maxVal :: "nat \<Rightarrow> nat" where
  "maxVal bitSize = (2 ^ bitSize mod 2 ^ 64 + maxUint64) mod 2 ^ 64"

definition ParseUint :: "string \<Rightarrow> nat \<Rightarrow> nat \<times> NumError option" where
  "ParseUint s bitSize =
    (if s = [] then (0, Some ErrSyntax)
     else
       (let (base, digits) = basePrefix s;
            cutoff = maxUint64 div base + 1
        in case parseDigits base cutoff (maxVal bitSize) 0 False digits of
             Inr (v, e) \<Rightarrow> (v, Some e)
           | Inl (n, underscores) \<Rightarrow>
               if underscores \<and> \<not> underscoreOK s then (0, Some ErrSyntax) else (n, None)))"

section \<open>The primitive parsers and the composite decoders (sysinfo.go)\<close>

text \<open>
  The value of a Go \<open>int\<close> of \<open>w\<close> bits that an integer wraps to: conversions to \<open>int\<close>
  and \<open>int\<close> multiplication keep the low \<open>w\<close> bits, read as two's complement.  The
  parameter \<open>w\<close> of the functions below is \<open>bits.UintSize\<close>, 32 or 64 by target.
\<close>

definition wrap :: "nat \<Rightarrow> int \<Rightarrow> int" where
  "wrap w z = (z + 2 ^ (w - 1)) mod 2 ^ w - 2 ^ (w - 1)"

definition atoi :: "nat \<Rightarrow> string \<Rightarrow> int" where
  "atoi w s = wrap w (int (fst (ParseUint s w)))"

definition parseBool :: "string \<Rightarrow> bool" where
  "parseBool s = (s = ''yes'')"

text \<open>
  In \<open>parseSize\<close>, \<open>parseAddrSizes\<close>, \<open>parseTLB\<close> and \<open>split\<close> every slice expression is
  in range by the test before it (an index that \<open>IndexByte\<close> or \<open>Index\<close> found; a suffix
  that \<open>HasSuffix\<close> found), so no slice panics and \<open>take\<close> and \<open>drop\<close> render them.
\<close>

definition parseSize :: "nat \<Rightarrow> string \<Rightarrow> int" where
  "parseSize w s =
    (let i = IndexByte s CHR '' '' in
     if i < 0 \<or> i = int (length s) then 0
     else
       (let x = atoi w (take (nat i) s);
            unit = drop (nat (i + 1)) s
        in if unit = ''KB'' then wrap w (x * 1024)
           else if unit = ''MB'' then wrap w (x * (1024 * 1024))
           else 0))"

definition parseAddrSizes :: "nat \<Rightarrow> string \<Rightarrow> int \<times> int" where
  "parseAddrSizes w s =
    (let sep = '', '';
         i = Index s sep
     in if i < 0 \<or> i + int (length sep) = int (length s) then (0, 0)
        else
          (let lhs = take (nat i) s;
               rhs = drop (nat (i + int (length sep))) s
           in if \<not> HasSuffix lhs '' bits physical'' then (0, 0)
              else if \<not> HasSuffix rhs '' bits virtual'' then (0, 0)
              else (atoi w (TrimSuffix lhs '' bits physical''),
                    atoi w (TrimSuffix rhs '' bits virtual''))))"

definition parseTLB :: "nat \<Rightarrow> string \<Rightarrow> int \<times> int" where
  "parseTLB w s0 =
    (if \<not> HasSuffix s0 '' pages'' then (0, 0)
     else
       (let s1 = TrimSuffix s0 '' pages'' in
        if \<not> HasSuffix s1 ''K'' \<and> \<not> HasSuffix s1 ''M'' then (0, 0)
        else
          (let unit = (if HasSuffix s1 ''K'' then 1024 else 1024 * 1024);
               s = take (length s1 - 1) s1;
               i = IndexByte s CHR '' ''
           in if i < 0 \<or> i = int (length s) then (0, 0)
              else (atoi w (take (nat i) s),
                    wrap w (atoi w (drop (nat (i + 1)) s) * unit)))))"

definition split :: "string \<Rightarrow> string \<times> string" where
  "split s =
    (let i = IndexByte s CHR '':'';
         key = (if i \<ge> 0 then TrimSpace (take (nat i) s) else []);
         val = (if i + 1 < int (length s) then TrimSpace (drop (nat (i + 1)) s) else [])
     in (key, val))"

section \<open>The line scanner (sysinfo.go)\<close>

subsection \<open>Package bufio: the lines a Scanner delivers\<close>

text \<open>
  \<open>bufio.NewScanner\<close> splits with \<open>ScanLines\<close>: each token is the text up to the next
  newline, without a trailing carriage return; text after the last newline is a final token
  when it is not empty.  The scanner's buffer holds at most \<open>MaxScanTokenSize\<close> bytes: at a
  line of that many bytes or more (before its newline) \<open>Scan\<close> returns false and the loop
  of \<open>scanProc\<close> ends.
\<close>

definition MaxScanTokenSize :: nat where
  "MaxScanTokenSize = 64 * 1024"

definition dropCR :: "string \<Rightarrow> string" where
  "dropCR d = (if d \<noteq> [] \<and> last d = CHR 0x0D then butlast d else d)"

function Scanner_lines :: "string \<Rightarrow> string list" where
  "Scanner_lines buf =
    (if buf = [] then []
     else
       (let l = takeWhile (\<lambda>c. c \<noteq> CHR 0x0A) buf in
        if MaxScanTokenSize \<le> length l then []
        else dropCR l # Scanner_lines (drop (length l + 1) buf)))"
  by pat_completeness auto
termination
  by (relation "measure length") auto

declare Scanner_lines.simps [simp del]

subsection \<open>Package sort\<close>

text \<open>
  \<open>sort.Slice(x, less)\<close> sorts in place; its documentation says that the sort is not
  guaranteed to be stable.  Every release of the library sorts a slice of fewer than seven
  elements by plain insertion sort (\<open>insertionSort_func\<close>); longer slices go through
  routines that differ between releases (a gap-6 pass before the insertion sort up to twelve
  elements and quicksort beyond in Go 1.18, pattern-defeating quicksort since Go 1.19).  The
  model runs the insertion sort on the short slices and takes the routine for the longer ones
  as the parameter \<open>long\<close>, of which only the contract \<open>sorts\<close> is assumed.
\<close>

text \<open>
  The inner loop of \<open>insertionSort_func\<close> moves the new element \<open>x\<close> left while it is less
  than its left neighbour.  \<open>ys\<close> is the sorted prefix in reverse, nearest neighbour first.
\<close>

fun siftLeft :: "('a \<Rightarrow> 'a \<Rightarrow> bool) \<Rightarrow> 'a \<Rightarrow> 'a list \<Rightarrow> 'a list" where
  "siftLeft lt x [] = [x]"
| "siftLeft lt x (y # ys) = (if lt x y then y # siftLeft lt x ys else x # y # ys)"

definition insertionSort :: "('a \<Rightarrow> 'a \<Rightarrow> bool) \<Rightarrow> 'a list \<Rightarrow> 'a list" where
  "insertionSort lt xs = rev (foldl (\<lambda>ys x. siftLeft lt x ys) [] xs)"

definition sort_Slice :: "('a list \<Rightarrow> 'a list) \<Rightarrow> ('a \<Rightarrow> 'a \<Rightarrow> bool) \<Rightarrow> 'a list \<Rightarrow> 'a list" where
  "sort_Slice long lt xs = (if length xs < 7 then insertionSort lt xs else long xs)"

text \<open>What the library promises of a sort by the comparison \<open>lt\<close>: a rearrangement in which no element is
  lt than an earlier one.\<close>

definition sorts :: "('a \<Rightarrow> 'a \<Rightarrow> bool) \<Rightarrow> ('a list \<Rightarrow> 'a list) \<Rightarrow> bool" where
  "sorts lt srt = (\<forall>xs. mset (srt xs) = mset xs \<and> sorted_wrt (\<lambda>a b. \<not> lt b a) (srt xs))"

text \<open>
  The routine of Go 1.18, the release that the module's \<open>go.mod\<close> names, for a slice of seven
  to twelve elements (the end of \<open>quickSort_func\<close>): one pass that swaps the elements six
  places apart that are out of order, then the insertion sort.  It is one of the routines
  that \<open>long\<close> stands for.
\<close>

definition gapPass :: "('a \<Rightarrow> 'a \<Rightarrow> bool) \<Rightarrow> 'a list \<Rightarrow> 'a list" where
  "gapPass lt xs =
    foldl (\<lambda>ys i. if lt (ys ! i) (ys ! (i - 6)) then ys[i := ys ! (i - 6), i - 6 := ys ! i] else ys)
      xs [6..<length xs]"

definition shellInsertionSort :: "('a \<Rightarrow> 'a \<Rightarrow> bool) \<Rightarrow> 'a list \<Rightarrow> 'a list" where
  "shellInsertionSort lt xs = insertionSort lt (gapPass lt xs)"

subsection \<open>scanProc\<close>

text \<open>The zero value of \<open>CPU\<close>, which \<open>var c CPU\<close> declares.\<close>

definition zeroCPU :: "'f::zero CPU" where
  "zeroCPU =
    \<lparr>Proc = 0, BogoMIPS = 0, Features = [], Rev = 0, ModelName = [], MicroArch = [],
     Impl = 0, Arch = 0, Variant = 0, Part = 0, VendorID = [], Family = 0, Model = 0,
     Microcode = 0, Freq = 0,
     Cache = \<lparr>Inst = 0, L1 = 0, L2 = 0, L3 = 0, Alignment = 0, Flush = 0\<rparr>,
     PhysID = 0, Siblings = 0, CoreID = 0, Cores = 0, APICID = 0, InitAPICID = 0,
     FPU = False, FPUExceptions = False, CPUIDLevel = 0, WP = False, Bugs = [],
     AddrSizes = \<lparr>Phys = 0, Virt = 0\<rparr>, PowerMgmt = [], TLB = \<lparr>N = 0, PageSize = 0\<rparr>\<rparr>"

text \<open>
  One iteration of the loop of \<open>scanProc\<close>, on the report \<open>rep\<close> and the accumulator \<open>c\<close>.
  \<open>atof\<close> is the package's wrapper of \<open>strconv.ParseFloat\<close>.
\<close>

definition scanLine ::
  "nat \<Rightarrow> (string \<Rightarrow> 'f) \<Rightarrow> 'f Info \<times> 'f CPU \<Rightarrow> string \<Rightarrow> 'f Info \<times> 'f CPU" where
  "scanLine w atof st line =
    (case st of (rep, c) \<Rightarrow>
     (case split line of (k, v) \<Rightarrow>
       if k = [] then (rep\<lparr>CPUs := CPUs rep @ [c]\<rparr>, c)
       else if k = ''processor'' then (rep, c\<lparr>Proc := atoi w v\<rparr>)
       else if k = ''BogoMIPS'' \<or> k = ''bogomips'' then (rep, c\<lparr>BogoMIPS := atof v\<rparr>)
       else if k = ''Features'' then (rep, c\<lparr>Features := Split v CHR '' ''\<rparr>)
       else if k = ''CPU implementer'' then (rep, c\<lparr>Impl := word_of_int (atoi w v)\<rparr>)
       else if k = ''CPU architecture'' then (rep, c\<lparr>Arch := atoi w v\<rparr>)
       else if k = ''CPU variant'' then (rep, c\<lparr>Variant := atoi w v\<rparr>)
       else if k = ''CPU part'' then (rep, c\<lparr>Part := word_of_int (atoi w v)\<rparr>)
       else if k = ''CPU revision'' \<or> k = ''stepping'' then (rep, c\<lparr>Rev := atoi w v\<rparr>)
       else if k = ''model name'' then (rep, c\<lparr>ModelName := v\<rparr>)
       else if k = ''vendor_id'' then (rep, c\<lparr>VendorID := v\<rparr>)
       else if k = ''cpu family'' then (rep, c\<lparr>Family := atoi w v\<rparr>)
       else if k = ''model'' then (rep, c\<lparr>Model := atoi w v\<rparr>)
       else if k = ''microcode'' then (rep, c\<lparr>Microcode := atoi w v\<rparr>)
       else if k = ''cpu MHz'' then (rep, c\<lparr>Freq := atof v\<rparr>)
       else if k = ''cache size'' then (rep, c\<lparr>Cache := (Cache c)\<lparr>L2 := parseSize w v\<rparr>\<rparr>)
       else if k = ''physical id'' then (rep, c\<lparr>PhysID := atoi w v\<rparr>)
       else if k = ''siblings'' then (rep, c\<lparr>Siblings := atoi w v\<rparr>)
       else if k = ''core id'' then (rep, c\<lparr>CoreID := atoi w v\<rparr>)
       else if k = ''cpu cores'' then (rep, c\<lparr>Cores := atoi w v\<rparr>)
       else if k = ''apicid'' then (rep, c\<lparr>APICID := atoi w v\<rparr>)
       else if k = ''initial apicid'' then (rep, c\<lparr>InitAPICID := atoi w v\<rparr>)
       else if k = ''fpu'' then (rep, c\<lparr>FPU := parseBool v\<rparr>)
       else if k = ''fpu_exception'' then (rep, c\<lparr>FPUExceptions := parseBool v\<rparr>)
       else if k = ''cpuid level'' then (rep, c\<lparr>CPUIDLevel := atoi w v\<rparr>)
       else if k = ''wp'' then (rep, c\<lparr>WP := parseBool v\<rparr>)
       else if k = ''flags'' then (rep, c\<lparr>Features := Split v CHR '' ''\<rparr>)
       else if k = ''bugs'' then (rep, c\<lparr>Bugs := Split v CHR '' ''\<rparr>)
       else if k = ''clflush size'' then (rep, c\<lparr>Cache := (Cache c)\<lparr>Flush := atoi w v\<rparr>\<rparr>)
       else if k = ''cache_alignment'' then
         (rep, c\<lparr>Cache := (Cache c)\<lparr>Alignment := atoi w v\<rparr>\<rparr>)
       else if k = ''address sizes'' then
         (rep, c\<lparr>AddrSizes := \<lparr>Phys = fst (parseAddrSizes w v), Virt = snd (parseAddrSizes w v)\<rparr>\<rparr>)
       else if k = ''power management'' then (rep, c\<lparr>PowerMgmt := v\<rparr>)
       else if k = ''TLB size'' then
         (rep, c\<lparr>TLB := \<lparr>N = fst (parseTLB w v), PageSize = snd (parseTLB w v)\<rparr>\<rparr>)
       else (rep\<lparr>Misc := Misc rep @ [\<lparr>Key = k, Value = v\<rparr>]\<rparr>, c)))"

text \<open>The loop over the lines, from the accumulator \<open>c\<close>.\<close>

definition scanLines ::
  "nat \<Rightarrow> (string \<Rightarrow> 'f) \<Rightarrow> 'f Info \<times> 'f CPU \<Rightarrow> string list \<Rightarrow> 'f Info \<times> 'f CPU" where
  "scanLines w atof st ls = foldl (scanLine w atof) st ls"

text \<open>The two calls of \<open>sort.Slice\<close> that end \<open>scanProc\<close>.\<close>

definition sortInfo ::
  "('f CPU list \<Rightarrow> 'f CPU list) \<Rightarrow> (Pair list \<Rightarrow> Pair list) \<Rightarrow> 'f Info \<Rightarrow> 'f Info" where
  "sortInfo longC longM rep =
    rep\<lparr>CPUs := sort_Slice longC (\<lambda>a b. Proc a < Proc b) (CPUs rep),
        Misc := sort_Slice longM (\<lambda>a b. Key a < Key b) (Misc rep)\<rparr>"

text \<open>
  \<open>scanProc(o, buf)\<close>: \<open>rep\<close> is the report \<open>*o\<close> on entry.  \<open>scanLoop\<close> is the report when
  the loop ends, \<open>scanProc\<close> the report on return, after the two sorts.
\<close>

definition scanLoop :: "nat \<Rightarrow> (string \<Rightarrow> 'f) \<Rightarrow> 'f::zero Info \<Rightarrow> string \<Rightarrow> 'f Info" where
  "scanLoop w atof rep buf = fst (scanLines w atof (rep, zeroCPU) (Scanner_lines buf))"

definition scanProc ::
  "nat \<Rightarrow> (string \<Rightarrow> 'f) \<Rightarrow> ('f CPU list \<Rightarrow> 'f CPU list) \<Rightarrow> (Pair list \<Rightarrow> Pair list) \<Rightarrow>
   'f::zero Info \<Rightarrow> string \<Rightarrow> 'f Info" where
  "scanProc w atof longC longM rep buf = sortInfo longC longM (scanLoop w atof rep buf)"

section \<open>The numerals of the claims\<close>

text \<open>
  The claims speak of inputs such as \<open><n> KB\<close> with \<open>n\<close> a number.  \<open>FormatUint n b\<close> is the
  numeral of \<open>n\<close> in base \<open>b\<close>, with the digits \<open>0\<close> to \<open>9\<close> and \<open>a\<close> to \<open>z\<close> and no leading zeros,
  as \<open>strconv.FormatUint\<close> writes it; \<open>FormatUint n 10\<close> is the text \<open><n>\<close>.
\<close>

definition digitChar :: "nat \<Rightarrow> char" where
  "digitChar d = (if d < 10 then char_of (48 + d) else char_of (87 + d))"

function FormatUint :: "nat \<Rightarrow> nat \<Rightarrow> string" where
  "FormatUint n b =
    (if n < b \<or> b < 2 then [digitChar n] else FormatUint (n div b) b @ [digitChar (n mod b)])"
  by pat_completeness auto
termination
  by (relation "measure fst") auto

declare FormatUint.simps [simp del]

text \<open>
  The numeric value of a text of digits in base \<open>b\<close> (at most 16), as the claims mean it:
  \<open>digitVal\<close> is the value of a digit character, in either case, and 16 for any other
  character; \<open>isNumeral b cs\<close> says that \<open>cs\<close> is a non-empty text of digits of base \<open>b\<close>.
\<close>

definition digitVal :: "char \<Rightarrow> nat" where
  "digitVal ch =
    (let c = of_char ch :: nat in
     if 48 \<le> c \<and> c \<le> 57 then c - 48
     else if 97 \<le> c \<and> c \<le> 102 then c - 87
     else if 65 \<le> c \<and> c \<le> 70 then c - 55
     else 16)"

definition numeralValue :: "nat \<Rightarrow> string \<Rightarrow> nat" where
  "numeralValue b cs = foldl (\<lambda>a ch. a * b + digitVal ch) 0 cs"

definition isNumeral :: "nat \<Rightarrow> string \<Rightarrow> bool" where
  "isNumeral b cs = (cs \<noteq> [] \<and> list_all (\<lambda>ch. digitVal ch < b) cs)"

section \<open>Properties\<close>

lemmas implementer_defs =
  ARMLtd_def Broadcom_def Cavium_def Fujitsu_def NVIDIA_def HiSilicon_def
  Qualcomm_def Samsung_def Intel_def Apple_def

lemmas arm_part_defs =
  ARM926EJS_def ARM11MPCore_def ARM1136JS_def ARM1156T2S_def ARM1176JZS_def
  CortexA8_def CortexA9_def CortexA15_def CortexM0_def CortexM3_def CortexM4_def
  CortexM55_def CortexA34_def CortexA35_def CortexA53_def CortexA55_def CortexA57_def
  CortexA72_def CortexA73_def CortexA75_def CortexA76_def CortexA77_def CortexA78_def
  CortexX1_def CortexX1C_def NeoverseN1_def NeoverseN2_def NeoverseV1_def
  Firestorm_def Icestorm_def

lemmas qualcomm_part_defs =
  Krait_def Kryo_def Kryo_2_def Kryo_3_def Kryo2xxGold_def Kryo2xxSilver_def
  Kryo3xxGold_def Kryo3xxSilver_def Kryo4xxGold_def Kryo4xxSilver_def Falkor_def Saphira_def

lemmas broadcom_part_defs = ThunderX2T99_def ThunderX2T99_2_def ThunderXT88_def

subsection \<open>Name resolution\<close>

lemma armPartName_default: "p \<notin> set armParts \<Longrightarrow> armPartName p = ''generic''"
  by (simp add: armPartName_def armParts_def)

lemma broadcomPartName_default: "p \<notin> set broadcomParts \<Longrightarrow> broadcomPartName p = ''generic''"
  by (simp add: broadcomPartName_def broadcomParts_def)

lemma qualcommPartName_default: "p \<notin> set qualcommParts \<Longrightarrow> qualcommPartName p = ''generic''"
  by (simp add: qualcommPartName_def qualcommParts_def)

text \<open>
  Claim C4.  \<open>CPU.Name\<close> is a chain of two switches, each with a \<open>default\<close> branch, so it
  returns a string for every implementer code and every part code: \<open>Name\<close> is a total
  function with no failing branch.  Whenever the part code is not a case label of the switch
  selected for the implementer, or the implementer selects no part switch at all, the string is
  exactly \<open>generic\<close>.
\<close>

theorem Name_unknown_generic:
  assumes "case partCases (Impl c) of None \<Rightarrow> True | Some ps \<Rightarrow> Part c \<notin> set ps"
  shows "Name c = ''generic''"
proof -
  consider (arm) "Impl c = ARMLtd"
    | (bc) "Impl c \<noteq> ARMLtd" "Impl c = Broadcom \<or> Impl c = Cavium"
    | (fu) "Impl c \<noteq> ARMLtd" "\<not> (Impl c = Broadcom \<or> Impl c = Cavium)" "Impl c = Fujitsu"
    | (other) "Impl c \<noteq> ARMLtd" "\<not> (Impl c = Broadcom \<or> Impl c = Cavium)" "Impl c \<noteq> Fujitsu"
    by blast
  then show ?thesis
  proof cases
    case arm
    with assms have "Part c \<notin> set armParts" by (simp add: partCases_def)
    then have "armPartName (Part c) = ''generic''" by (rule armPartName_default)
    with arm show ?thesis by (simp add: Name_def)
  next
    case bc
    with assms have "Part c \<notin> set broadcomParts" by (simp add: partCases_def)
    then have "broadcomPartName (Part c) = ''generic''" by (rule broadcomPartName_default)
    with bc show ?thesis by (simp add: Name_def)
  next
    case fu
    with assms have "Part c \<noteq> A64FX" by (simp add: partCases_def)
    with fu show ?thesis by (simp add: Name_def fujitsuPartName_def)
  next
    case other
    show ?thesis
    proof (cases "Impl c = NVIDIA")
      case True
      with other assms have "Part c \<noteq> Carmel" by (simp add: partCases_def)
      with other True show ?thesis by (simp add: Name_def nvidiaPartName_def)
    next
      case nv: False
      show ?thesis
      proof (cases "Impl c = HiSilicon")
        case True
        with other nv assms have "Part c \<noteq> TSV110" by (simp add: partCases_def)
        with other nv True show ?thesis by (simp add: Name_def hiSiliconPartName_def)
      next
        case hs: False
        show ?thesis
        proof (cases "Impl c = Qualcomm")
          case True
          with other nv hs assms have "Part c \<notin> set qualcommParts" by (simp add: partCases_def)
          then have "qualcommPartName (Part c) = ''generic''" by (rule qualcommPartName_default)
          with other nv hs True show ?thesis by (simp add: Name_def)
        next
          case False
          with other nv hs show ?thesis by (simp add: Name_def samsungPartName_def)
        qed
      qed
    qed
  qed
qed

text \<open>
  The theorem at a Qualcomm part code outside Qualcomm's switch (0x123) and at an implementer
  code with no switch (0x7A).
\<close>

theorem Name_unknown_generic_witness:
  "(case partCases (Impl ((zeroCPU :: int CPU)\<lparr>Impl := Qualcomm, Part := 0x123\<rparr>)) of
      None \<Rightarrow> True
    | Some ps \<Rightarrow> Part ((zeroCPU :: int CPU)\<lparr>Impl := Qualcomm, Part := 0x123\<rparr>) \<notin> set ps) \<and>
   Name ((zeroCPU :: int CPU)\<lparr>Impl := Qualcomm, Part := 0x123\<rparr>) = ''generic'' \<and>
   partCases (Impl ((zeroCPU :: int CPU)\<lparr>Impl := 0x7A, Part := Kryo\<rparr>)) = None \<and>
   Name ((zeroCPU :: int CPU)\<lparr>Impl := 0x7A, Part := Kryo\<rparr>) = ''generic''"
proof -
  have h1: "case partCases (Impl ((zeroCPU :: int CPU)\<lparr>Impl := Qualcomm, Part := 0x123\<rparr>)) of
      None \<Rightarrow> True
    | Some ps \<Rightarrow> Part ((zeroCPU :: int CPU)\<lparr>Impl := Qualcomm, Part := 0x123\<rparr>) \<notin> set ps"
    by (simp add: partCases_def implementer_defs qualcommParts_def qualcomm_part_defs)
  have h2: "partCases (Impl ((zeroCPU :: int CPU)\<lparr>Impl := 0x7A, Part := Kryo\<rparr>)) = None"
    by (simp add: partCases_def implementer_defs)
  then have h3: "case partCases (Impl ((zeroCPU :: int CPU)\<lparr>Impl := 0x7A, Part := Kryo\<rparr>)) of
      None \<Rightarrow> True
    | Some ps \<Rightarrow> Part ((zeroCPU :: int CPU)\<lparr>Impl := 0x7A, Part := Kryo\<rparr>) \<notin> set ps"
    by simp
  show ?thesis
    using h1 h2 Name_unknown_generic [OF h1] Name_unknown_generic [OF h3] by simp
qed

lemma armPartName_M1:
  "(armPartName p = ''M1 Firestorm'') = (p = Firestorm)"
  "(armPartName p = ''M1 Icestorm'') = (p = Icestorm)"
  by (simp_all add: armPartName_def arm_part_defs)

lemma otherPartName_not_M1:
  "broadcomPartName p \<noteq> ''M1 Firestorm''" "broadcomPartName p \<noteq> ''M1 Icestorm''"
  "fujitsuPartName p \<noteq> ''M1 Firestorm''" "fujitsuPartName p \<noteq> ''M1 Icestorm''"
  "nvidiaPartName p \<noteq> ''M1 Firestorm''" "nvidiaPartName p \<noteq> ''M1 Icestorm''"
  "hiSiliconPartName p \<noteq> ''M1 Firestorm''" "hiSiliconPartName p \<noteq> ''M1 Icestorm''"
  "qualcommPartName p \<noteq> ''M1 Firestorm''" "qualcommPartName p \<noteq> ''M1 Icestorm''"
  "samsungPartName p \<noteq> ''M1 Firestorm''" "samsungPartName p \<noteq> ''M1 Icestorm''"
  by (simp_all add: broadcomPartName_def fujitsuPartName_def nvidiaPartName_def
      hiSiliconPartName_def qualcommPartName_def samsungPartName_def)

lemma Name_default:
  "Impl c \<notin> {ARMLtd, Broadcom, Cavium, Fujitsu, NVIDIA, HiSilicon, Qualcomm, Samsung}
   \<Longrightarrow> Name c = ''generic''"
  by (simp add: Name_def)

lemma Apple_Intel_no_switch:
  "Apple \<notin> {ARMLtd, Broadcom, Cavium, Fujitsu, NVIDIA, HiSilicon, Qualcomm, Samsung}"
  "Intel \<notin> {ARMLtd, Broadcom, Cavium, Fujitsu, NVIDIA, HiSilicon, Qualcomm, Samsung}"
  by (simp_all add: implementer_defs)

lemma Name_M1:
  "(Name c = ''M1 Firestorm'') = (Impl c = ARMLtd \<and> Part c = Firestorm)"
  "(Name c = ''M1 Icestorm'') = (Impl c = ARMLtd \<and> Part c = Icestorm)"
  by (simp_all add: Name_def armPartName_M1 otherPartName_not_M1)

text \<open>
  Claim C10.  Under the implementer codes \<open>Apple\<close> (0x61) and \<open>Intel\<close> (0x69) \<open>CPU.Name\<close>
  returns \<open>generic\<close> for every part code, \<open>Firestorm\<close> (0x23) and \<open>Icestorm\<close> (0x22)
  included; the names \<open>M1 Firestorm\<close> and \<open>M1 Icestorm\<close> are returned exactly for these two
  part codes under the implementer \<open>ARMLtd\<close> (0x41).
\<close>

theorem Name_Apple_Intel_generic:
  "Apple = 0x61 \<and> Intel = 0x69 \<and> ARMLtd = 0x41 \<and> Firestorm = 0x23 \<and> Icestorm = 0x22 \<and>
   (Impl c = Apple \<or> Impl c = Intel \<longrightarrow> Name c = ''generic'') \<and>
   ((Name c = ''M1 Firestorm'') = (Impl c = ARMLtd \<and> Part c = Firestorm)) \<and>
   ((Name c = ''M1 Icestorm'') = (Impl c = ARMLtd \<and> Part c = Icestorm))"
proof -
  have "Impl c = Apple \<or> Impl c = Intel \<longrightarrow> Name c = ''generic''"
    using Name_default [of c] Apple_Intel_no_switch by metis
  then show ?thesis
    by (simp add: Name_M1 Apple_def Intel_def ARMLtd_def Firestorm_def Icestorm_def)
qed

theorem Name_Apple_Intel_generic_witness:
  "Impl ((zeroCPU :: int CPU)\<lparr>Impl := Apple, Part := Firestorm\<rparr>) = Apple \<and>
   Name ((zeroCPU :: int CPU)\<lparr>Impl := Apple, Part := Firestorm\<rparr>) = ''generic'' \<and>
   Name ((zeroCPU :: int CPU)\<lparr>Impl := ARMLtd, Part := Firestorm\<rparr>) = ''M1 Firestorm''"
  using Name_Apple_Intel_generic [of "(zeroCPU :: int CPU)\<lparr>Impl := Apple, Part := Firestorm\<rparr>"]
    Name_Apple_Intel_generic [of "(zeroCPU :: int CPU)\<lparr>Impl := ARMLtd, Part := Firestorm\<rparr>"]
  by simp

subsection \<open>Evaluating the model on literal input\<close>

lemmas atoi_eval = atoi_def ParseUint_def basePrefix_def lower_def isDigit_def isLetter_def
  maxUint64_def maxVal_def wrap_def underscoreOK_def Let_def

lemmas split_eval = split_def TrimSpace_def TrimLeftSpace.simps TrimRightSpace.simps
  leadingSpace_def trailingSpace_def spaceEncodings_def suffix_to_prefix Let_def

lemmas scan_eval = scanProc_def scanLoop_def scanLines_def scanLine_def sortInfo_def sort_Slice_def
  insertionSort_def Scanner_lines.simps MaxScanTokenSize_def dropCR_def

subsection \<open>The key/value split\<close>

lemma IndexByte_notin: "c \<notin> set s \<Longrightarrow> IndexByte s c = -1"
  by (induction s) auto

lemma IndexByte_first: "c \<notin> set a \<Longrightarrow> IndexByte (a @ c # b) c = int (length a)"
  by (induction a) (auto simp: Let_def)

lemma TrimSpace_Nil: "TrimSpace [] = []"
  by (simp add: split_eval)

lemma split_colon:
  assumes "CHR '':'' \<notin> set a"
  shows "split (a @ CHR '':'' # b) = (TrimSpace a, TrimSpace b)"
proof -
  have i: "IndexByte (a @ CHR '':'' # b) CHR '':'' = int (length a)"
    using assms by (rule IndexByte_first)
  have d: "nat (int (length a) + 1) = Suc (length a)" by simp
  show ?thesis
    unfolding split_def Let_def i
    by (cases "b = []") (simp_all add: d TrimSpace_Nil)
qed

lemma split_no_colon:
  assumes "CHR '':'' \<notin> set s"
  shows "split s = ([], TrimSpace s)"
proof -
  have i: "IndexByte s CHR '':'' = -1"
    using assms by (rule IndexByte_notin)
  show ?thesis
    by (cases "s = []") (simp_all add: split_def Let_def i TrimSpace_Nil)
qed

lemma scanLine_separator:
  assumes "fst (split l) = []"
  shows "scanLine w atof (rep, c) l = (rep\<lparr>CPUs := CPUs rep @ [c]\<rparr>, c)"
proof -
  obtain v where "split l = ([], v)" using assms by (cases "split l") simp
  then show ?thesis by (simp add: scanLine_def)
qed

text \<open>
  Claim C3, as the code has it.  On a line with a colon, \<open>split\<close> returns the text before the
  first colon and the text after it, both trimmed of white space.  On a line without a colon
  the key is empty, so the scanner takes the line for a record separator and appends the
  accumulator; the value, however, is not empty: it is the whole line, trimmed (the test
  \<open>i+1 < len(s)\<close> holds for \<open>i = -1\<close> on every non-empty line).
\<close>

theorem split_key_value:
  "(CHR '':'' \<notin> set a \<longrightarrow> split (a @ CHR '':'' # b) = (TrimSpace a, TrimSpace b)) \<and>
   (CHR '':'' \<notin> set s \<longrightarrow>
      split s = ([], TrimSpace s) \<and>
      scanLine w atof (rep, c) s = (rep\<lparr>CPUs := CPUs rep @ [c]\<rparr>, c))"
  by (simp add: split_colon split_no_colon scanLine_separator)

theorem split_key_value_witness:
  "CHR '':'' \<notin> set (''processor'' @ [CHR 0x09]) \<and>
   split (''processor'' @ [CHR 0x09] @ '': 5'') = (''processor'', ''5'') \<and>
   CHR '':'' \<notin> set ''hello world '' \<and>
   split ''hello world '' = ([], ''hello world'') \<and>
   CPUs (fst (scanLine 64 (\<lambda>_. 0::int) (\<lparr>CPUs = [], Misc = []\<rparr>, zeroCPU) ''hello world '')) =
     [zeroCPU]"
  using split_key_value [of "''processor'' @ [CHR 0x09]" "'' 5''" "''hello world ''" 64
      "\<lambda>_. 0::int" "\<lparr>CPUs = [], Misc = []\<rparr>" zeroCPU]
  by (simp add: TrimSpace_def TrimLeftSpace.simps TrimRightSpace.simps
      leadingSpace_def trailingSpace_def spaceEncodings_def suffix_to_prefix)

text \<open>
  The claim's ``empty key and empty value'' fails on a line without a colon: the value of
  \<open>hello world\<close> is the line itself.
\<close>

theorem split_no_colon_counterexample:
  "CHR '':'' \<notin> set ''hello world '' \<and> split ''hello world '' = ([], ''hello world'') \<and>
   split ''hello world '' \<noteq> ([], [])"
  by (simp add: split_eval)

subsection \<open>The scanning loop\<close>

lemma scanLine_field_CPUs:
  assumes "fst (split l) \<noteq> []"
  shows "CPUs (fst (scanLine w atof (rep, c) l)) = CPUs rep"
proof -
  obtain k v where kv: "split l = (k, v)" by (cases "split l")
  with assms have "k \<noteq> []" by simp
  then show ?thesis by (simp add: scanLine_def kv)
qed

lemma scanLines_Nil: "scanLines w atof st [] = st"
  by (simp add: scanLines_def)

lemma scanLines_Cons: "scanLines w atof st (l # ls) = scanLines w atof (scanLine w atof st l) ls"
  by (simp add: scanLines_def)

lemma scanLines_append:
  "scanLines w atof st (xs @ ys) = scanLines w atof (scanLines w atof st xs) ys"
  by (simp add: scanLines_def)

lemma scanLines_fields_CPUs:
  "\<forall>l\<in>set ls. fst (split l) \<noteq> [] \<Longrightarrow> CPUs (fst (scanLines w atof st ls)) = CPUs (fst st)"
proof (induction ls arbitrary: st)
  case Nil
  show ?case by (simp add: scanLines_Nil)
next
  case (Cons l ls)
  obtain rep c where st: "st = (rep, c)" by (cases st)
  from Cons.prems have l: "fst (split l) \<noteq> []" and ls: "\<forall>l\<in>set ls. fst (split l) \<noteq> []"
    by simp_all
  have "CPUs (fst (scanLines w atof (scanLine w atof st l) ls)) = CPUs (fst (scanLine w atof st l))"
    using ls by (rule Cons.IH)
  also have "\<dots> = CPUs (fst st)"
    using l by (simp add: st scanLine_field_CPUs)
  finally show ?case by (simp add: scanLines_Cons)
qed

lemma scanLines_count:
  "length (CPUs (fst (scanLines w atof st ls))) =
   length (CPUs (fst st)) + length (filter (\<lambda>l. fst (split l) = []) ls)"
proof (induction ls arbitrary: st)
  case Nil
  show ?case by (simp add: scanLines_Nil)
next
  case (Cons l ls)
  obtain rep c where st: "st = (rep, c)" by (cases st)
  show ?case
  proof (cases "fst (split l) = []")
    case True
    then show ?thesis
      by (simp add: scanLines_Cons Cons.IH st scanLine_separator)
  next
    case False
    then show ?thesis
      by (simp add: scanLines_Cons Cons.IH st scanLine_field_CPUs)
  qed
qed

text \<open>
  A line changes no field of the accumulator but the one that its key names, and a separator
  line changes none.
\<close>

lemma scanLines_keeps:
  assumes step: "\<And>st l. fst (split l) \<notin> K \<Longrightarrow> f (snd (scanLine w atof st l)) = f (snd st)"
    and ls: "\<forall>l\<in>set ls. fst (split l) \<notin> K"
  shows "f (snd (scanLines w atof st ls)) = f (snd st)"
  using ls
proof (induction ls arbitrary: st)
  case Nil
  show ?case by (simp add: scanLines_Nil)
next
  case (Cons l ls)
  from Cons.prems have l: "fst (split l) \<notin> K" and ls: "\<forall>l\<in>set ls. fst (split l) \<notin> K"
    by simp_all
  have "f (snd (scanLines w atof (scanLine w atof st l) ls)) = f (snd (scanLine w atof st l))"
    using ls by (rule Cons.IH)
  also have "\<dots> = f (snd st)" using l by (rule step)
  finally show ?case by (simp add: scanLines_Cons)
qed

lemma scanLines_separator_last:
  assumes "fst (split l) = []"
  shows "scanLines w atof st (ls @ [l]) =
    ((fst (scanLines w atof st ls))\<lparr>CPUs := CPUs (fst (scanLines w atof st ls)) @
        [snd (scanLines w atof st ls)]\<rparr>, snd (scanLines w atof st ls))"
proof -
  obtain r a where ra: "scanLines w atof st ls = (r, a)" by (cases "scanLines w atof st ls")
  show ?thesis
    by (simp add: scanLines_append scanLines_Cons scanLines_Nil ra scanLine_separator [OF assms])
qed

lemma scanLine_keeps_Proc:
  assumes "fst (split l) \<notin> {''processor''}"
  shows "Proc (snd (scanLine w atof st l)) = Proc (snd st)"
proof -
  obtain rep c where st: "st = (rep, c)" by (cases st)
  obtain k v where kv: "split l = (k, v)" by (cases "split l")
  from assms have k: "k \<notin> {''processor''}" by (simp add: kv)
  then show ?thesis by (simp add: scanLine_def st kv)
qed

lemma scanLines_keeps_Proc:
  assumes "\<forall>l\<in>set ls. fst (split l) \<notin> {''processor''}"
  shows "Proc (snd (scanLines w atof st ls)) = Proc (snd st)"
  using scanLines_keeps [where f = "\<lambda>c. Proc c", OF scanLine_keeps_Proc assms] .

lemma scanLine_keeps_BogoMIPS:
  assumes "fst (split l) \<notin> {''BogoMIPS'', ''bogomips''}"
  shows "BogoMIPS (snd (scanLine w atof st l)) = BogoMIPS (snd st)"
proof -
  obtain rep c where st: "st = (rep, c)" by (cases st)
  obtain k v where kv: "split l = (k, v)" by (cases "split l")
  from assms have k: "k \<notin> {''BogoMIPS'', ''bogomips''}" by (simp add: kv)
  then show ?thesis by (simp add: scanLine_def st kv)
qed

lemma scanLines_keeps_BogoMIPS:
  assumes "\<forall>l\<in>set ls. fst (split l) \<notin> {''BogoMIPS'', ''bogomips''}"
  shows "BogoMIPS (snd (scanLines w atof st ls)) = BogoMIPS (snd st)"
  using scanLines_keeps [where f = "\<lambda>c. BogoMIPS c", OF scanLine_keeps_BogoMIPS assms] .

lemma scanLine_keeps_Features:
  assumes "fst (split l) \<notin> {''Features'', ''flags''}"
  shows "Features (snd (scanLine w atof st l)) = Features (snd st)"
proof -
  obtain rep c where st: "st = (rep, c)" by (cases st)
  obtain k v where kv: "split l = (k, v)" by (cases "split l")
  from assms have k: "k \<notin> {''Features'', ''flags''}" by (simp add: kv)
  then show ?thesis by (simp add: scanLine_def st kv)
qed

lemma scanLines_keeps_Features:
  assumes "\<forall>l\<in>set ls. fst (split l) \<notin> {''Features'', ''flags''}"
  shows "Features (snd (scanLines w atof st ls)) = Features (snd st)"
  using scanLines_keeps [where f = "\<lambda>c. Features c", OF scanLine_keeps_Features assms] .

lemma scanLine_keeps_Rev:
  assumes "fst (split l) \<notin> {''CPU revision'', ''stepping''}"
  shows "Rev (snd (scanLine w atof st l)) = Rev (snd st)"
proof -
  obtain rep c where st: "st = (rep, c)" by (cases st)
  obtain k v where kv: "split l = (k, v)" by (cases "split l")
  from assms have k: "k \<notin> {''CPU revision'', ''stepping''}" by (simp add: kv)
  then show ?thesis by (simp add: scanLine_def st kv)
qed

lemma scanLines_keeps_Rev:
  assumes "\<forall>l\<in>set ls. fst (split l) \<notin> {''CPU revision'', ''stepping''}"
  shows "Rev (snd (scanLines w atof st ls)) = Rev (snd st)"
  using scanLines_keeps [where f = "\<lambda>c. Rev c", OF scanLine_keeps_Rev assms] .

lemma scanLine_keeps_ModelName:
  assumes "fst (split l) \<notin> {''model name''}"
  shows "ModelName (snd (scanLine w atof st l)) = ModelName (snd st)"
proof -
  obtain rep c where st: "st = (rep, c)" by (cases st)
  obtain k v where kv: "split l = (k, v)" by (cases "split l")
  from assms have k: "k \<notin> {''model name''}" by (simp add: kv)
  then show ?thesis by (simp add: scanLine_def st kv)
qed

lemma scanLines_keeps_ModelName:
  assumes "\<forall>l\<in>set ls. fst (split l) \<notin> {''model name''}"
  shows "ModelName (snd (scanLines w atof st ls)) = ModelName (snd st)"
  using scanLines_keeps [where f = "\<lambda>c. ModelName c", OF scanLine_keeps_ModelName assms] .

lemma scanLine_keeps_MicroArch:
  assumes "fst (split l) \<notin> {}"
  shows "MicroArch (snd (scanLine w atof st l)) = MicroArch (snd st)"
proof -
  obtain rep c where st: "st = (rep, c)" by (cases st)
  obtain k v where kv: "split l = (k, v)" by (cases "split l")
  from assms have k: "k \<notin> {}" by (simp add: kv)
  then show ?thesis by (simp add: scanLine_def st kv)
qed

lemma scanLines_keeps_MicroArch:
  assumes "\<forall>l\<in>set ls. fst (split l) \<notin> {}"
  shows "MicroArch (snd (scanLines w atof st ls)) = MicroArch (snd st)"
  using scanLines_keeps [where f = "\<lambda>c. MicroArch c", OF scanLine_keeps_MicroArch assms] .

lemma scanLine_keeps_Impl:
  assumes "fst (split l) \<notin> {''CPU implementer''}"
  shows "Impl (snd (scanLine w atof st l)) = Impl (snd st)"
proof -
  obtain rep c where st: "st = (rep, c)" by (cases st)
  obtain k v where kv: "split l = (k, v)" by (cases "split l")
  from assms have k: "k \<notin> {''CPU implementer''}" by (simp add: kv)
  then show ?thesis by (simp add: scanLine_def st kv)
qed

lemma scanLines_keeps_Impl:
  assumes "\<forall>l\<in>set ls. fst (split l) \<notin> {''CPU implementer''}"
  shows "Impl (snd (scanLines w atof st ls)) = Impl (snd st)"
  using scanLines_keeps [where f = "\<lambda>c. Impl c", OF scanLine_keeps_Impl assms] .

lemma scanLine_keeps_Arch:
  assumes "fst (split l) \<notin> {''CPU architecture''}"
  shows "Arch (snd (scanLine w atof st l)) = Arch (snd st)"
proof -
  obtain rep c where st: "st = (rep, c)" by (cases st)
  obtain k v where kv: "split l = (k, v)" by (cases "split l")
  from assms have k: "k \<notin> {''CPU architecture''}" by (simp add: kv)
  then show ?thesis by (simp add: scanLine_def st kv)
qed

lemma scanLines_keeps_Arch:
  assumes "\<forall>l\<in>set ls. fst (split l) \<notin> {''CPU architecture''}"
  shows "Arch (snd (scanLines w atof st ls)) = Arch (snd st)"
  using scanLines_keeps [where f = "\<lambda>c. Arch c", OF scanLine_keeps_Arch assms] .

lemma scanLine_keeps_Variant:
  assumes "fst (split l) \<notin> {''CPU variant''}"
  shows "Variant (snd (scanLine w atof st l)) = Variant (snd st)"
proof -
  obtain rep c where st: "st = (rep, c)" by (cases st)
  obtain k v where kv: "split l = (k, v)" by (cases "split l")
  from assms have k: "k \<notin> {''CPU variant''}" by (simp add: kv)
  then show ?thesis by (simp add: scanLine_def st kv)
qed

lemma scanLines_keeps_Variant:
  assumes "\<forall>l\<in>set ls. fst (split l) \<notin> {''CPU variant''}"
  shows "Variant (snd (scanLines w atof st ls)) = Variant (snd st)"
  using scanLines_keeps [where f = "\<lambda>c. Variant c", OF scanLine_keeps_Variant assms] .

lemma scanLine_keeps_Part:
  assumes "fst (split l) \<notin> {''CPU part''}"
  shows "Part (snd (scanLine w atof st l)) = Part (snd st)"
proof -
  obtain rep c where st: "st = (rep, c)" by (cases st)
  obtain k v where kv: "split l = (k, v)" by (cases "split l")
  from assms have k: "k \<notin> {''CPU part''}" by (simp add: kv)
  then show ?thesis by (simp add: scanLine_def st kv)
qed

lemma scanLines_keeps_Part:
  assumes "\<forall>l\<in>set ls. fst (split l) \<notin> {''CPU part''}"
  shows "Part (snd (scanLines w atof st ls)) = Part (snd st)"
  using scanLines_keeps [where f = "\<lambda>c. Part c", OF scanLine_keeps_Part assms] .

lemma scanLine_keeps_VendorID:
  assumes "fst (split l) \<notin> {''vendor_id''}"
  shows "VendorID (snd (scanLine w atof st l)) = VendorID (snd st)"
proof -
  obtain rep c where st: "st = (rep, c)" by (cases st)
  obtain k v where kv: "split l = (k, v)" by (cases "split l")
  from assms have k: "k \<notin> {''vendor_id''}" by (simp add: kv)
  then show ?thesis by (simp add: scanLine_def st kv)
qed

lemma scanLines_keeps_VendorID:
  assumes "\<forall>l\<in>set ls. fst (split l) \<notin> {''vendor_id''}"
  shows "VendorID (snd (scanLines w atof st ls)) = VendorID (snd st)"
  using scanLines_keeps [where f = "\<lambda>c. VendorID c", OF scanLine_keeps_VendorID assms] .

lemma scanLine_keeps_Family:
  assumes "fst (split l) \<notin> {''cpu family''}"
  shows "Family (snd (scanLine w atof st l)) = Family (snd st)"
proof -
  obtain rep c where st: "st = (rep, c)" by (cases st)
  obtain k v where kv: "split l = (k, v)" by (cases "split l")
  from assms have k: "k \<notin> {''cpu family''}" by (simp add: kv)
  then show ?thesis by (simp add: scanLine_def st kv)
qed

lemma scanLines_keeps_Family:
  assumes "\<forall>l\<in>set ls. fst (split l) \<notin> {''cpu family''}"
  shows "Family (snd (scanLines w atof st ls)) = Family (snd st)"
  using scanLines_keeps [where f = "\<lambda>c. Family c", OF scanLine_keeps_Family assms] .

lemma scanLine_keeps_Model:
  assumes "fst (split l) \<notin> {''model''}"
  shows "Model (snd (scanLine w atof st l)) = Model (snd st)"
proof -
  obtain rep c where st: "st = (rep, c)" by (cases st)
  obtain k v where kv: "split l = (k, v)" by (cases "split l")
  from assms have k: "k \<notin> {''model''}" by (simp add: kv)
  then show ?thesis by (simp add: scanLine_def st kv)
qed

lemma scanLines_keeps_Model:
  assumes "\<forall>l\<in>set ls. fst (split l) \<notin> {''model''}"
  shows "Model (snd (scanLines w atof st ls)) = Model (snd st)"
  using scanLines_keeps [where f = "\<lambda>c. Model c", OF scanLine_keeps_Model assms] .

lemma scanLine_keeps_Microcode:
  assumes "fst (split l) \<notin> {''microcode''}"
  shows "Microcode (snd (scanLine w atof st l)) = Microcode (snd st)"
proof -
  obtain rep c where st: "st = (rep, c)" by (cases st)
  obtain k v where kv: "split l = (k, v)" by (cases "split l")
  from assms have k: "k \<notin> {''microcode''}" by (simp add: kv)
  then show ?thesis by (simp add: scanLine_def st kv)
qed

lemma scanLines_keeps_Microcode:
  assumes "\<forall>l\<in>set ls. fst (split l) \<notin> {''microcode''}"
  shows "Microcode (snd (scanLines w atof st ls)) = Microcode (snd st)"
  using scanLines_keeps [where f = "\<lambda>c. Microcode c", OF scanLine_keeps_Microcode assms] .

lemma scanLine_keeps_Freq:
  assumes "fst (split l) \<notin> {''cpu MHz''}"
  shows "Freq (snd (scanLine w atof st l)) = Freq (snd st)"
proof -
  obtain rep c where st: "st = (rep, c)" by (cases st)
  obtain k v where kv: "split l = (k, v)" by (cases "split l")
  from assms have k: "k \<notin> {''cpu MHz''}" by (simp add: kv)
  then show ?thesis by (simp add: scanLine_def st kv)
qed

lemma scanLines_keeps_Freq:
  assumes "\<forall>l\<in>set ls. fst (split l) \<notin> {''cpu MHz''}"
  shows "Freq (snd (scanLines w atof st ls)) = Freq (snd st)"
  using scanLines_keeps [where f = "\<lambda>c. Freq c", OF scanLine_keeps_Freq assms] .

lemma scanLine_keeps_Inst:
  assumes "fst (split l) \<notin> {}"
  shows "Inst (Cache (snd (scanLine w atof st l))) = Inst (Cache (snd st))"
proof -
  obtain rep c where st: "st = (rep, c)" by (cases st)
  obtain k v where kv: "split l = (k, v)" by (cases "split l")
  from assms have k: "k \<notin> {}" by (simp add: kv)
  then show ?thesis by (simp add: scanLine_def st kv)
qed

lemma scanLines_keeps_Inst:
  assumes "\<forall>l\<in>set ls. fst (split l) \<notin> {}"
  shows "Inst (Cache (snd (scanLines w atof st ls))) = Inst (Cache (snd st))"
  using scanLines_keeps [where f = "\<lambda>c. Inst (Cache c)", OF scanLine_keeps_Inst assms] .

lemma scanLine_keeps_L1:
  assumes "fst (split l) \<notin> {}"
  shows "L1 (Cache (snd (scanLine w atof st l))) = L1 (Cache (snd st))"
proof -
  obtain rep c where st: "st = (rep, c)" by (cases st)
  obtain k v where kv: "split l = (k, v)" by (cases "split l")
  from assms have k: "k \<notin> {}" by (simp add: kv)
  then show ?thesis by (simp add: scanLine_def st kv)
qed

lemma scanLines_keeps_L1:
  assumes "\<forall>l\<in>set ls. fst (split l) \<notin> {}"
  shows "L1 (Cache (snd (scanLines w atof st ls))) = L1 (Cache (snd st))"
  using scanLines_keeps [where f = "\<lambda>c. L1 (Cache c)", OF scanLine_keeps_L1 assms] .

lemma scanLine_keeps_L2:
  assumes "fst (split l) \<notin> {''cache size''}"
  shows "L2 (Cache (snd (scanLine w atof st l))) = L2 (Cache (snd st))"
proof -
  obtain rep c where st: "st = (rep, c)" by (cases st)
  obtain k v where kv: "split l = (k, v)" by (cases "split l")
  from assms have k: "k \<notin> {''cache size''}" by (simp add: kv)
  then show ?thesis by (simp add: scanLine_def st kv)
qed

lemma scanLines_keeps_L2:
  assumes "\<forall>l\<in>set ls. fst (split l) \<notin> {''cache size''}"
  shows "L2 (Cache (snd (scanLines w atof st ls))) = L2 (Cache (snd st))"
  using scanLines_keeps [where f = "\<lambda>c. L2 (Cache c)", OF scanLine_keeps_L2 assms] .

lemma scanLine_keeps_L3:
  assumes "fst (split l) \<notin> {}"
  shows "L3 (Cache (snd (scanLine w atof st l))) = L3 (Cache (snd st))"
proof -
  obtain rep c where st: "st = (rep, c)" by (cases st)
  obtain k v where kv: "split l = (k, v)" by (cases "split l")
  from assms have k: "k \<notin> {}" by (simp add: kv)
  then show ?thesis by (simp add: scanLine_def st kv)
qed

lemma scanLines_keeps_L3:
  assumes "\<forall>l\<in>set ls. fst (split l) \<notin> {}"
  shows "L3 (Cache (snd (scanLines w atof st ls))) = L3 (Cache (snd st))"
  using scanLines_keeps [where f = "\<lambda>c. L3 (Cache c)", OF scanLine_keeps_L3 assms] .

lemma scanLine_keeps_Alignment:
  assumes "fst (split l) \<notin> {''cache_alignment''}"
  shows "Alignment (Cache (snd (scanLine w atof st l))) = Alignment (Cache (snd st))"
proof -
  obtain rep c where st: "st = (rep, c)" by (cases st)
  obtain k v where kv: "split l = (k, v)" by (cases "split l")
  from assms have k: "k \<notin> {''cache_alignment''}" by (simp add: kv)
  then show ?thesis by (simp add: scanLine_def st kv)
qed

lemma scanLines_keeps_Alignment:
  assumes "\<forall>l\<in>set ls. fst (split l) \<notin> {''cache_alignment''}"
  shows "Alignment (Cache (snd (scanLines w atof st ls))) = Alignment (Cache (snd st))"
  using scanLines_keeps [where f = "\<lambda>c. Alignment (Cache c)", OF scanLine_keeps_Alignment assms] .

lemma scanLine_keeps_Flush:
  assumes "fst (split l) \<notin> {''clflush size''}"
  shows "Flush (Cache (snd (scanLine w atof st l))) = Flush (Cache (snd st))"
proof -
  obtain rep c where st: "st = (rep, c)" by (cases st)
  obtain k v where kv: "split l = (k, v)" by (cases "split l")
  from assms have k: "k \<notin> {''clflush size''}" by (simp add: kv)
  then show ?thesis by (simp add: scanLine_def st kv)
qed

lemma scanLines_keeps_Flush:
  assumes "\<forall>l\<in>set ls. fst (split l) \<notin> {''clflush size''}"
  shows "Flush (Cache (snd (scanLines w atof st ls))) = Flush (Cache (snd st))"
  using scanLines_keeps [where f = "\<lambda>c. Flush (Cache c)", OF scanLine_keeps_Flush assms] .

lemma scanLine_keeps_PhysID:
  assumes "fst (split l) \<notin> {''physical id''}"
  shows "PhysID (snd (scanLine w atof st l)) = PhysID (snd st)"
proof -
  obtain rep c where st: "st = (rep, c)" by (cases st)
  obtain k v where kv: "split l = (k, v)" by (cases "split l")
  from assms have k: "k \<notin> {''physical id''}" by (simp add: kv)
  then show ?thesis by (simp add: scanLine_def st kv)
qed

lemma scanLines_keeps_PhysID:
  assumes "\<forall>l\<in>set ls. fst (split l) \<notin> {''physical id''}"
  shows "PhysID (snd (scanLines w atof st ls)) = PhysID (snd st)"
  using scanLines_keeps [where f = "\<lambda>c. PhysID c", OF scanLine_keeps_PhysID assms] .

lemma scanLine_keeps_Siblings:
  assumes "fst (split l) \<notin> {''siblings''}"
  shows "Siblings (snd (scanLine w atof st l)) = Siblings (snd st)"
proof -
  obtain rep c where st: "st = (rep, c)" by (cases st)
  obtain k v where kv: "split l = (k, v)" by (cases "split l")
  from assms have k: "k \<notin> {''siblings''}" by (simp add: kv)
  then show ?thesis by (simp add: scanLine_def st kv)
qed

lemma scanLines_keeps_Siblings:
  assumes "\<forall>l\<in>set ls. fst (split l) \<notin> {''siblings''}"
  shows "Siblings (snd (scanLines w atof st ls)) = Siblings (snd st)"
  using scanLines_keeps [where f = "\<lambda>c. Siblings c", OF scanLine_keeps_Siblings assms] .

lemma scanLine_keeps_CoreID:
  assumes "fst (split l) \<notin> {''core id''}"
  shows "CoreID (snd (scanLine w atof st l)) = CoreID (snd st)"
proof -
  obtain rep c where st: "st = (rep, c)" by (cases st)
  obtain k v where kv: "split l = (k, v)" by (cases "split l")
  from assms have k: "k \<notin> {''core id''}" by (simp add: kv)
  then show ?thesis by (simp add: scanLine_def st kv)
qed

lemma scanLines_keeps_CoreID:
  assumes "\<forall>l\<in>set ls. fst (split l) \<notin> {''core id''}"
  shows "CoreID (snd (scanLines w atof st ls)) = CoreID (snd st)"
  using scanLines_keeps [where f = "\<lambda>c. CoreID c", OF scanLine_keeps_CoreID assms] .

lemma scanLine_keeps_Cores:
  assumes "fst (split l) \<notin> {''cpu cores''}"
  shows "Cores (snd (scanLine w atof st l)) = Cores (snd st)"
proof -
  obtain rep c where st: "st = (rep, c)" by (cases st)
  obtain k v where kv: "split l = (k, v)" by (cases "split l")
  from assms have k: "k \<notin> {''cpu cores''}" by (simp add: kv)
  then show ?thesis by (simp add: scanLine_def st kv)
qed

lemma scanLines_keeps_Cores:
  assumes "\<forall>l\<in>set ls. fst (split l) \<notin> {''cpu cores''}"
  shows "Cores (snd (scanLines w atof st ls)) = Cores (snd st)"
  using scanLines_keeps [where f = "\<lambda>c. Cores c", OF scanLine_keeps_Cores assms] .

lemma scanLine_keeps_APICID:
  assumes "fst (split l) \<notin> {''apicid''}"
  shows "APICID (snd (scanLine w atof st l)) = APICID (snd st)"
proof -
  obtain rep c where st: "st = (rep, c)" by (cases st)
  obtain k v where kv: "split l = (k, v)" by (cases "split l")
  from assms have k: "k \<notin> {''apicid''}" by (simp add: kv)
  then show ?thesis by (simp add: scanLine_def st kv)
qed

lemma scanLines_keeps_APICID:
  assumes "\<forall>l\<in>set ls. fst (split l) \<notin> {''apicid''}"
  shows "APICID (snd (scanLines w atof st ls)) = APICID (snd st)"
  using scanLines_keeps [where f = "\<lambda>c. APICID c", OF scanLine_keeps_APICID assms] .

lemma scanLine_keeps_InitAPICID:
  assumes "fst (split l) \<notin> {''initial apicid''}"
  shows "InitAPICID (snd (scanLine w atof st l)) = InitAPICID (snd st)"
proof -
  obtain rep c where st: "st = (rep, c)" by (cases st)
  obtain k v where kv: "split l = (k, v)" by (cases "split l")
  from assms have k: "k \<notin> {''initial apicid''}" by (simp add: kv)
  then show ?thesis by (simp add: scanLine_def st kv)
qed

lemma scanLines_keeps_InitAPICID:
  assumes "\<forall>l\<in>set ls. fst (split l) \<notin> {''initial apicid''}"
  shows "InitAPICID (snd (scanLines w atof st ls)) = InitAPICID (snd st)"
  using scanLines_keeps [where f = "\<lambda>c. InitAPICID c", OF scanLine_keeps_InitAPICID assms] .

lemma scanLine_keeps_FPU:
  assumes "fst (split l) \<notin> {''fpu''}"
  shows "FPU (snd (scanLine w atof st l)) = FPU (snd st)"
proof -
  obtain rep c where st: "st = (rep, c)" by (cases st)
  obtain k v where kv: "split l = (k, v)" by (cases "split l")
  from assms have k: "k \<notin> {''fpu''}" by (simp add: kv)
  then show ?thesis by (simp add: scanLine_def st kv)
qed

lemma scanLines_keeps_FPU:
  assumes "\<forall>l\<in>set ls. fst (split l) \<notin> {''fpu''}"
  shows "FPU (snd (scanLines w atof st ls)) = FPU (snd st)"
  using scanLines_keeps [where f = "\<lambda>c. FPU c", OF scanLine_keeps_FPU assms] .

lemma scanLine_keeps_FPUExceptions:
  assumes "fst (split l) \<notin> {''fpu_exception''}"
  shows "FPUExceptions (snd (scanLine w atof st l)) = FPUExceptions (snd st)"
proof -
  obtain rep c where st: "st = (rep, c)" by (cases st)
  obtain k v where kv: "split l = (k, v)" by (cases "split l")
  from assms have k: "k \<notin> {''fpu_exception''}" by (simp add: kv)
  then show ?thesis by (simp add: scanLine_def st kv)
qed

lemma scanLines_keeps_FPUExceptions:
  assumes "\<forall>l\<in>set ls. fst (split l) \<notin> {''fpu_exception''}"
  shows "FPUExceptions (snd (scanLines w atof st ls)) = FPUExceptions (snd st)"
  using scanLines_keeps [where f = "\<lambda>c. FPUExceptions c", OF scanLine_keeps_FPUExceptions assms] .

lemma scanLine_keeps_CPUIDLevel:
  assumes "fst (split l) \<notin> {''cpuid level''}"
  shows "CPUIDLevel (snd (scanLine w atof st l)) = CPUIDLevel (snd st)"
proof -
  obtain rep c where st: "st = (rep, c)" by (cases st)
  obtain k v where kv: "split l = (k, v)" by (cases "split l")
  from assms have k: "k \<notin> {''cpuid level''}" by (simp add: kv)
  then show ?thesis by (simp add: scanLine_def st kv)
qed

lemma scanLines_keeps_CPUIDLevel:
  assumes "\<forall>l\<in>set ls. fst (split l) \<notin> {''cpuid level''}"
  shows "CPUIDLevel (snd (scanLines w atof st ls)) = CPUIDLevel (snd st)"
  using scanLines_keeps [where f = "\<lambda>c. CPUIDLevel c", OF scanLine_keeps_CPUIDLevel assms] .

lemma scanLine_keeps_WP:
  assumes "fst (split l) \<notin> {''wp''}"
  shows "WP (snd (scanLine w atof st l)) = WP (snd st)"
proof -
  obtain rep c where st: "st = (rep, c)" by (cases st)
  obtain k v where kv: "split l = (k, v)" by (cases "split l")
  from assms have k: "k \<notin> {''wp''}" by (simp add: kv)
  then show ?thesis by (simp add: scanLine_def st kv)
qed

lemma scanLines_keeps_WP:
  assumes "\<forall>l\<in>set ls. fst (split l) \<notin> {''wp''}"
  shows "WP (snd (scanLines w atof st ls)) = WP (snd st)"
  using scanLines_keeps [where f = "\<lambda>c. WP c", OF scanLine_keeps_WP assms] .

lemma scanLine_keeps_Bugs:
  assumes "fst (split l) \<notin> {''bugs''}"
  shows "Bugs (snd (scanLine w atof st l)) = Bugs (snd st)"
proof -
  obtain rep c where st: "st = (rep, c)" by (cases st)
  obtain k v where kv: "split l = (k, v)" by (cases "split l")
  from assms have k: "k \<notin> {''bugs''}" by (simp add: kv)
  then show ?thesis by (simp add: scanLine_def st kv)
qed

lemma scanLines_keeps_Bugs:
  assumes "\<forall>l\<in>set ls. fst (split l) \<notin> {''bugs''}"
  shows "Bugs (snd (scanLines w atof st ls)) = Bugs (snd st)"
  using scanLines_keeps [where f = "\<lambda>c. Bugs c", OF scanLine_keeps_Bugs assms] .

lemma scanLine_keeps_AddrSizes:
  assumes "fst (split l) \<notin> {''address sizes''}"
  shows "AddrSizes (snd (scanLine w atof st l)) = AddrSizes (snd st)"
proof -
  obtain rep c where st: "st = (rep, c)" by (cases st)
  obtain k v where kv: "split l = (k, v)" by (cases "split l")
  from assms have k: "k \<notin> {''address sizes''}" by (simp add: kv)
  then show ?thesis by (simp add: scanLine_def st kv)
qed

lemma scanLines_keeps_AddrSizes:
  assumes "\<forall>l\<in>set ls. fst (split l) \<notin> {''address sizes''}"
  shows "AddrSizes (snd (scanLines w atof st ls)) = AddrSizes (snd st)"
  using scanLines_keeps [where f = "\<lambda>c. AddrSizes c", OF scanLine_keeps_AddrSizes assms] .

lemma scanLine_keeps_PowerMgmt:
  assumes "fst (split l) \<notin> {''power management''}"
  shows "PowerMgmt (snd (scanLine w atof st l)) = PowerMgmt (snd st)"
proof -
  obtain rep c where st: "st = (rep, c)" by (cases st)
  obtain k v where kv: "split l = (k, v)" by (cases "split l")
  from assms have k: "k \<notin> {''power management''}" by (simp add: kv)
  then show ?thesis by (simp add: scanLine_def st kv)
qed

lemma scanLines_keeps_PowerMgmt:
  assumes "\<forall>l\<in>set ls. fst (split l) \<notin> {''power management''}"
  shows "PowerMgmt (snd (scanLines w atof st ls)) = PowerMgmt (snd st)"
  using scanLines_keeps [where f = "\<lambda>c. PowerMgmt c", OF scanLine_keeps_PowerMgmt assms] .

lemma scanLine_keeps_TLB:
  assumes "fst (split l) \<notin> {''TLB size''}"
  shows "TLB (snd (scanLine w atof st l)) = TLB (snd st)"
proof -
  obtain rep c where st: "st = (rep, c)" by (cases st)
  obtain k v where kv: "split l = (k, v)" by (cases "split l")
  from assms have k: "k \<notin> {''TLB size''}" by (simp add: kv)
  then show ?thesis by (simp add: scanLine_def st kv)
qed

lemma scanLines_keeps_TLB:
  assumes "\<forall>l\<in>set ls. fst (split l) \<notin> {''TLB size''}"
  shows "TLB (snd (scanLines w atof st ls)) = TLB (snd st)"
  using scanLines_keeps [where f = "\<lambda>c. TLB c", OF scanLine_keeps_TLB assms] .

text \<open>
  Claim C1, as the code has it.  A line with an empty key appends the accumulator to the CPU
  sequence and leaves the accumulator as it is: \<open>scanProc\<close> declares \<open>c\<close> once, before the
  loop, and never resets it.  So the record that a separator appends after the lines \<open>ls\<close> is
  the accumulator that these lines leave, and a field of that accumulator has the value it had
  before \<open>ls\<close> unless one of the lines has a key of that field, whatever separators and
  other lines \<open>ls\<close> holds: every field value carries over into the later records until a
  later line sets that field again.  \<open>MicroArch\<close> and the cache sizes \<open>Inst\<close>, \<open>L1\<close> and
  \<open>L3\<close> are set by no line.
\<close>

theorem scanLines_accumulator_carries_over:
  "(fst (split l) = [] \<longrightarrow>
      scanLine w atof (rep, c) l = (rep\<lparr>CPUs := CPUs rep @ [c]\<rparr>, c) \<and>
      scanLines w atof (rep, c) (l # ls) = scanLines w atof (rep\<lparr>CPUs := CPUs rep @ [c]\<rparr>, c) ls \<and>
      scanLines w atof (rep, c) (ls @ [l]) =
        ((fst (scanLines w atof (rep, c) ls))\<lparr>CPUs := CPUs (fst (scanLines w atof (rep, c) ls)) @ [snd (scanLines w atof (rep, c) ls)]\<rparr>,
         snd (scanLines w atof (rep, c) ls))) \<and>
   scanLines w atof (rep, c) (ls @ ls') = scanLines w atof (scanLines w atof (rep, c) ls) ls' \<and>
   ((\<forall>x\<in>set ls. fst (split x) \<notin> {''processor''}) \<longrightarrow>
      Proc (snd (scanLines w atof (rep, c) ls)) = Proc c) \<and>
   ((\<forall>x\<in>set ls. fst (split x) \<notin> {''BogoMIPS'', ''bogomips''}) \<longrightarrow>
      BogoMIPS (snd (scanLines w atof (rep, c) ls)) = BogoMIPS c) \<and>
   ((\<forall>x\<in>set ls. fst (split x) \<notin> {''Features'', ''flags''}) \<longrightarrow>
      Features (snd (scanLines w atof (rep, c) ls)) = Features c) \<and>
   ((\<forall>x\<in>set ls. fst (split x) \<notin> {''CPU revision'', ''stepping''}) \<longrightarrow>
      Rev (snd (scanLines w atof (rep, c) ls)) = Rev c) \<and>
   ((\<forall>x\<in>set ls. fst (split x) \<notin> {''model name''}) \<longrightarrow>
      ModelName (snd (scanLines w atof (rep, c) ls)) = ModelName c) \<and>
   MicroArch (snd (scanLines w atof (rep, c) ls)) = MicroArch c \<and>
   ((\<forall>x\<in>set ls. fst (split x) \<notin> {''CPU implementer''}) \<longrightarrow>
      Impl (snd (scanLines w atof (rep, c) ls)) = Impl c) \<and>
   ((\<forall>x\<in>set ls. fst (split x) \<notin> {''CPU architecture''}) \<longrightarrow>
      Arch (snd (scanLines w atof (rep, c) ls)) = Arch c) \<and>
   ((\<forall>x\<in>set ls. fst (split x) \<notin> {''CPU variant''}) \<longrightarrow>
      Variant (snd (scanLines w atof (rep, c) ls)) = Variant c) \<and>
   ((\<forall>x\<in>set ls. fst (split x) \<notin> {''CPU part''}) \<longrightarrow>
      Part (snd (scanLines w atof (rep, c) ls)) = Part c) \<and>
   ((\<forall>x\<in>set ls. fst (split x) \<notin> {''vendor_id''}) \<longrightarrow>
      VendorID (snd (scanLines w atof (rep, c) ls)) = VendorID c) \<and>
   ((\<forall>x\<in>set ls. fst (split x) \<notin> {''cpu family''}) \<longrightarrow>
      Family (snd (scanLines w atof (rep, c) ls)) = Family c) \<and>
   ((\<forall>x\<in>set ls. fst (split x) \<notin> {''model''}) \<longrightarrow>
      Model (snd (scanLines w atof (rep, c) ls)) = Model c) \<and>
   ((\<forall>x\<in>set ls. fst (split x) \<notin> {''microcode''}) \<longrightarrow>
      Microcode (snd (scanLines w atof (rep, c) ls)) = Microcode c) \<and>
   ((\<forall>x\<in>set ls. fst (split x) \<notin> {''cpu MHz''}) \<longrightarrow>
      Freq (snd (scanLines w atof (rep, c) ls)) = Freq c) \<and>
   Inst (Cache (snd (scanLines w atof (rep, c) ls))) = Inst (Cache c) \<and>
   L1 (Cache (snd (scanLines w atof (rep, c) ls))) = L1 (Cache c) \<and>
   ((\<forall>x\<in>set ls. fst (split x) \<notin> {''cache size''}) \<longrightarrow>
      L2 (Cache (snd (scanLines w atof (rep, c) ls))) = L2 (Cache c)) \<and>
   L3 (Cache (snd (scanLines w atof (rep, c) ls))) = L3 (Cache c) \<and>
   ((\<forall>x\<in>set ls. fst (split x) \<notin> {''cache_alignment''}) \<longrightarrow>
      Alignment (Cache (snd (scanLines w atof (rep, c) ls))) = Alignment (Cache c)) \<and>
   ((\<forall>x\<in>set ls. fst (split x) \<notin> {''clflush size''}) \<longrightarrow>
      Flush (Cache (snd (scanLines w atof (rep, c) ls))) = Flush (Cache c)) \<and>
   ((\<forall>x\<in>set ls. fst (split x) \<notin> {''physical id''}) \<longrightarrow>
      PhysID (snd (scanLines w atof (rep, c) ls)) = PhysID c) \<and>
   ((\<forall>x\<in>set ls. fst (split x) \<notin> {''siblings''}) \<longrightarrow>
      Siblings (snd (scanLines w atof (rep, c) ls)) = Siblings c) \<and>
   ((\<forall>x\<in>set ls. fst (split x) \<notin> {''core id''}) \<longrightarrow>
      CoreID (snd (scanLines w atof (rep, c) ls)) = CoreID c) \<and>
   ((\<forall>x\<in>set ls. fst (split x) \<notin> {''cpu cores''}) \<longrightarrow>
      Cores (snd (scanLines w atof (rep, c) ls)) = Cores c) \<and>
   ((\<forall>x\<in>set ls. fst (split x) \<notin> {''apicid''}) \<longrightarrow>
      APICID (snd (scanLines w atof (rep, c) ls)) = APICID c) \<and>
   ((\<forall>x\<in>set ls. fst (split x) \<notin> {''initial apicid''}) \<longrightarrow>
      InitAPICID (snd (scanLines w atof (rep, c) ls)) = InitAPICID c) \<and>
   ((\<forall>x\<in>set ls. fst (split x) \<notin> {''fpu''}) \<longrightarrow>
      FPU (snd (scanLines w atof (rep, c) ls)) = FPU c) \<and>
   ((\<forall>x\<in>set ls. fst (split x) \<notin> {''fpu_exception''}) \<longrightarrow>
      FPUExceptions (snd (scanLines w atof (rep, c) ls)) = FPUExceptions c) \<and>
   ((\<forall>x\<in>set ls. fst (split x) \<notin> {''cpuid level''}) \<longrightarrow>
      CPUIDLevel (snd (scanLines w atof (rep, c) ls)) = CPUIDLevel c) \<and>
   ((\<forall>x\<in>set ls. fst (split x) \<notin> {''wp''}) \<longrightarrow>
      WP (snd (scanLines w atof (rep, c) ls)) = WP c) \<and>
   ((\<forall>x\<in>set ls. fst (split x) \<notin> {''bugs''}) \<longrightarrow>
      Bugs (snd (scanLines w atof (rep, c) ls)) = Bugs c) \<and>
   ((\<forall>x\<in>set ls. fst (split x) \<notin> {''address sizes''}) \<longrightarrow>
      AddrSizes (snd (scanLines w atof (rep, c) ls)) = AddrSizes c) \<and>
   ((\<forall>x\<in>set ls. fst (split x) \<notin> {''power management''}) \<longrightarrow>
      PowerMgmt (snd (scanLines w atof (rep, c) ls)) = PowerMgmt c) \<and>
   ((\<forall>x\<in>set ls. fst (split x) \<notin> {''TLB size''}) \<longrightarrow>
      TLB (snd (scanLines w atof (rep, c) ls)) = TLB c)"
proof -
  have separator: "(fst (split l) = [] \<longrightarrow>
        scanLine w atof (rep, c) l = (rep\<lparr>CPUs := CPUs rep @ [c]\<rparr>, c) \<and>
        scanLines w atof (rep, c) (l # ls) = scanLines w atof (rep\<lparr>CPUs := CPUs rep @ [c]\<rparr>, c) ls \<and>
        scanLines w atof (rep, c) (ls @ [l]) =
          ((fst (scanLines w atof (rep, c) ls))\<lparr>CPUs := CPUs (fst (scanLines w atof (rep, c) ls)) @ [snd (scanLines w atof (rep, c) ls)]\<rparr>,
           snd (scanLines w atof (rep, c) ls)))"
    by (simp add: scanLine_separator scanLines_Cons scanLines_separator_last)
  have lines: "scanLines w atof (rep, c) (ls @ ls') = scanLines w atof (scanLines w atof (rep, c) ls) ls'"
    by (rule scanLines_append)
  have fields: "((\<forall>x\<in>set ls. fst (split x) \<notin> {''processor''}) \<longrightarrow>
         Proc (snd (scanLines w atof (rep, c) ls)) = Proc c) \<and>
      ((\<forall>x\<in>set ls. fst (split x) \<notin> {''BogoMIPS'', ''bogomips''}) \<longrightarrow>
         BogoMIPS (snd (scanLines w atof (rep, c) ls)) = BogoMIPS c) \<and>
      ((\<forall>x\<in>set ls. fst (split x) \<notin> {''Features'', ''flags''}) \<longrightarrow>
         Features (snd (scanLines w atof (rep, c) ls)) = Features c) \<and>
      ((\<forall>x\<in>set ls. fst (split x) \<notin> {''CPU revision'', ''stepping''}) \<longrightarrow>
         Rev (snd (scanLines w atof (rep, c) ls)) = Rev c) \<and>
      ((\<forall>x\<in>set ls. fst (split x) \<notin> {''model name''}) \<longrightarrow>
         ModelName (snd (scanLines w atof (rep, c) ls)) = ModelName c) \<and>
      MicroArch (snd (scanLines w atof (rep, c) ls)) = MicroArch c \<and>
      ((\<forall>x\<in>set ls. fst (split x) \<notin> {''CPU implementer''}) \<longrightarrow>
         Impl (snd (scanLines w atof (rep, c) ls)) = Impl c) \<and>
      ((\<forall>x\<in>set ls. fst (split x) \<notin> {''CPU architecture''}) \<longrightarrow>
         Arch (snd (scanLines w atof (rep, c) ls)) = Arch c) \<and>
      ((\<forall>x\<in>set ls. fst (split x) \<notin> {''CPU variant''}) \<longrightarrow>
         Variant (snd (scanLines w atof (rep, c) ls)) = Variant c) \<and>
      ((\<forall>x\<in>set ls. fst (split x) \<notin> {''CPU part''}) \<longrightarrow>
         Part (snd (scanLines w atof (rep, c) ls)) = Part c) \<and>
      ((\<forall>x\<in>set ls. fst (split x) \<notin> {''vendor_id''}) \<longrightarrow>
         VendorID (snd (scanLines w atof (rep, c) ls)) = VendorID c) \<and>
      ((\<forall>x\<in>set ls. fst (split x) \<notin> {''cpu family''}) \<longrightarrow>
         Family (snd (scanLines w atof (rep, c) ls)) = Family c) \<and>
      ((\<forall>x\<in>set ls. fst (split x) \<notin> {''model''}) \<longrightarrow>
         Model (snd (scanLines w atof (rep, c) ls)) = Model c) \<and>
      ((\<forall>x\<in>set ls. fst (split x) \<notin> {''microcode''}) \<longrightarrow>
         Microcode (snd (scanLines w atof (rep, c) ls)) = Microcode c) \<and>
      ((\<forall>x\<in>set ls. fst (split x) \<notin> {''cpu MHz''}) \<longrightarrow>
         Freq (snd (scanLines w atof (rep, c) ls)) = Freq c) \<and>
      Inst (Cache (snd (scanLines w atof (rep, c) ls))) = Inst (Cache c) \<and>
      L1 (Cache (snd (scanLines w atof (rep, c) ls))) = L1 (Cache c) \<and>
      ((\<forall>x\<in>set ls. fst (split x) \<notin> {''cache size''}) \<longrightarrow>
         L2 (Cache (snd (scanLines w atof (rep, c) ls))) = L2 (Cache c)) \<and>
      L3 (Cache (snd (scanLines w atof (rep, c) ls))) = L3 (Cache c) \<and>
      ((\<forall>x\<in>set ls. fst (split x) \<notin> {''cache_alignment''}) \<longrightarrow>
         Alignment (Cache (snd (scanLines w atof (rep, c) ls))) = Alignment (Cache c)) \<and>
      ((\<forall>x\<in>set ls. fst (split x) \<notin> {''clflush size''}) \<longrightarrow>
         Flush (Cache (snd (scanLines w atof (rep, c) ls))) = Flush (Cache c)) \<and>
      ((\<forall>x\<in>set ls. fst (split x) \<notin> {''physical id''}) \<longrightarrow>
         PhysID (snd (scanLines w atof (rep, c) ls)) = PhysID c) \<and>
      ((\<forall>x\<in>set ls. fst (split x) \<notin> {''siblings''}) \<longrightarrow>
         Siblings (snd (scanLines w atof (rep, c) ls)) = Siblings c) \<and>
      ((\<forall>x\<in>set ls. fst (split x) \<notin> {''core id''}) \<longrightarrow>
         CoreID (snd (scanLines w atof (rep, c) ls)) = CoreID c) \<and>
      ((\<forall>x\<in>set ls. fst (split x) \<notin> {''cpu cores''}) \<longrightarrow>
         Cores (snd (scanLines w atof (rep, c) ls)) = Cores c) \<and>
      ((\<forall>x\<in>set ls. fst (split x) \<notin> {''apicid''}) \<longrightarrow>
         APICID (snd (scanLines w atof (rep, c) ls)) = APICID c) \<and>
      ((\<forall>x\<in>set ls. fst (split x) \<notin> {''initial apicid''}) \<longrightarrow>
         InitAPICID (snd (scanLines w atof (rep, c) ls)) = InitAPICID c) \<and>
      ((\<forall>x\<in>set ls. fst (split x) \<notin> {''fpu''}) \<longrightarrow>
         FPU (snd (scanLines w atof (rep, c) ls)) = FPU c) \<and>
      ((\<forall>x\<in>set ls. fst (split x) \<notin> {''fpu_exception''}) \<longrightarrow>
         FPUExceptions (snd (scanLines w atof (rep, c) ls)) = FPUExceptions c) \<and>
      ((\<forall>x\<in>set ls. fst (split x) \<notin> {''cpuid level''}) \<longrightarrow>
         CPUIDLevel (snd (scanLines w atof (rep, c) ls)) = CPUIDLevel c) \<and>
      ((\<forall>x\<in>set ls. fst (split x) \<notin> {''wp''}) \<longrightarrow>
         WP (snd (scanLines w atof (rep, c) ls)) = WP c) \<and>
      ((\<forall>x\<in>set ls. fst (split x) \<notin> {''bugs''}) \<longrightarrow>
         Bugs (snd (scanLines w atof (rep, c) ls)) = Bugs c) \<and>
      ((\<forall>x\<in>set ls. fst (split x) \<notin> {''address sizes''}) \<longrightarrow>
         AddrSizes (snd (scanLines w atof (rep, c) ls)) = AddrSizes c) \<and>
      ((\<forall>x\<in>set ls. fst (split x) \<notin> {''power management''}) \<longrightarrow>
         PowerMgmt (snd (scanLines w atof (rep, c) ls)) = PowerMgmt c) \<and>
      ((\<forall>x\<in>set ls. fst (split x) \<notin> {''TLB size''}) \<longrightarrow>
         TLB (snd (scanLines w atof (rep, c) ls)) = TLB c)"
    by (simp add: scanLines_keeps_Proc scanLines_keeps_BogoMIPS scanLines_keeps_Features scanLines_keeps_Rev
        scanLines_keeps_ModelName scanLines_keeps_MicroArch scanLines_keeps_Impl scanLines_keeps_Arch
        scanLines_keeps_Variant scanLines_keeps_Part scanLines_keeps_VendorID scanLines_keeps_Family
        scanLines_keeps_Model scanLines_keeps_Microcode scanLines_keeps_Freq scanLines_keeps_Inst
        scanLines_keeps_L1 scanLines_keeps_L2 scanLines_keeps_L3 scanLines_keeps_Alignment
        scanLines_keeps_Flush scanLines_keeps_PhysID scanLines_keeps_Siblings scanLines_keeps_CoreID
        scanLines_keeps_Cores scanLines_keeps_APICID scanLines_keeps_InitAPICID scanLines_keeps_FPU
        scanLines_keeps_FPUExceptions scanLines_keeps_CPUIDLevel scanLines_keeps_WP scanLines_keeps_Bugs
        scanLines_keeps_AddrSizes scanLines_keeps_PowerMgmt scanLines_keeps_TLB)
  show ?thesis by (rule conjI [OF separator conjI [OF lines fields]])
qed

theorem scanLines_accumulator_carries_over_witness:
  "fst (split []) = [] \<and>
   fst (split ''processor: 1'') \<notin> {''model name''} \<and>
   ModelName (snd (scanLines 64 (\<lambda>_. 0::int)
      (\<lparr>CPUs = [], Misc = []\<rparr>, zeroCPU\<lparr>ModelName := ''X''\<rparr>) [''processor: 1''])) = ''X'' \<and>
   ModelName (last (CPUs (fst (scanLines 64 (\<lambda>_. 0::int)
      (\<lparr>CPUs = [], Misc = []\<rparr>, zeroCPU\<lparr>ModelName := ''X''\<rparr>) ([''processor: 1''] @ [[]]))))) = ''X''"
proof -
  have h: "fst (split []) = []" by (simp add: split_eval)
  have k: "fst (split ''processor: 1'') \<notin> {''model name''}" by (simp add: split_eval)
  then have ks: "\<forall>x\<in>set [''processor: 1'']. fst (split x) \<notin> {''model name''}" by simp
  note t = scanLines_accumulator_carries_over [of "[]" 64 "\<lambda>_. 0::int" "\<lparr>CPUs = [], Misc = []\<rparr>"
      "zeroCPU\<lparr>ModelName := ''X''\<rparr>" "[''processor: 1'']" "[]"]
  have m: "ModelName (snd (scanLines 64 (\<lambda>_. 0::int)
      (\<lparr>CPUs = [], Misc = []\<rparr>, zeroCPU\<lparr>ModelName := ''X''\<rparr>) [''processor: 1''])) =
      ModelName (zeroCPU\<lparr>ModelName := ''X''\<rparr> :: int CPU)"
    using t ks by blast
  then have m': "ModelName (snd (scanLines 64 (\<lambda>_. 0::int)
      (\<lparr>CPUs = [], Misc = []\<rparr>, zeroCPU\<lparr>ModelName := ''X''\<rparr>) [''processor: 1''])) = ''X''"
    by simp
  have a: "scanLines 64 (\<lambda>_. 0::int)
      (\<lparr>CPUs = [], Misc = []\<rparr>, zeroCPU\<lparr>ModelName := ''X''\<rparr>) ([''processor: 1''] @ [[]]) =
      ((fst (scanLines 64 (\<lambda>_. 0::int)
          (\<lparr>CPUs = [], Misc = []\<rparr>, zeroCPU\<lparr>ModelName := ''X''\<rparr>) [''processor: 1'']))
        \<lparr>CPUs := CPUs (fst (scanLines 64 (\<lambda>_. 0::int)
          (\<lparr>CPUs = [], Misc = []\<rparr>, zeroCPU\<lparr>ModelName := ''X''\<rparr>) [''processor: 1''])) @
          [snd (scanLines 64 (\<lambda>_. 0::int)
          (\<lparr>CPUs = [], Misc = []\<rparr>, zeroCPU\<lparr>ModelName := ''X''\<rparr>) [''processor: 1''])]\<rparr>,
       snd (scanLines 64 (\<lambda>_. 0::int)
          (\<lparr>CPUs = [], Misc = []\<rparr>, zeroCPU\<lparr>ModelName := ''X''\<rparr>) [''processor: 1'']))"
    using t h by blast
  have l: "ModelName (last (CPUs (fst (scanLines 64 (\<lambda>_. 0::int)
      (\<lparr>CPUs = [], Misc = []\<rparr>, zeroCPU\<lparr>ModelName := ''X''\<rparr>) ([''processor: 1''] @ [[]]))))) = ''X''"
    unfolding a by (simp add: m')
  from h k m' l show ?thesis by (intro conjI)
qed

text \<open>
  The claim's fresh accumulator fails on two records of which only the first has a
  \<open>model name\<close> line: the second record carries the first one's model name.
\<close>

theorem scanProc_fresh_accumulator_counterexample:
  "map (\<lambda>c. (Proc c, ModelName c))
     (CPUs (scanProc 64 (\<lambda>_. 0::int) (insertionSort (\<lambda>a b. Proc a < Proc b))
        (insertionSort (\<lambda>a b. Key a < Key b)) \<lparr>CPUs = [], Misc = []\<rparr>
        ''processor: 0\<newline>model name: X\<newline>\<newline>processor: 1\<newline>\<newline>'')) =
   [(0, ''X''), (1, ''X'')]"
  by (simp add: scan_eval split_eval atoi_eval zeroCPU_def)

text \<open>
  Claim C9.  When the lines that the scanner delivers end with lines of non-empty keys (a last
  record with no separator after it), these lines leave the CPU sequence as it was: the result
  has the CPU sequence of the input cut before them.  The loop appends one entry for each
  line with an empty key and none otherwise.
\<close>

theorem scanProc_trailing_record:
  assumes "Scanner_lines buf = ls @ rest" and "\<forall>l\<in>set rest. fst (split l) \<noteq> []"
  shows "CPUs (scanProc w atof longC longM rep buf) =
           CPUs (sortInfo longC longM (fst (scanLines w atof (rep, zeroCPU) ls))) \<and>
         length (CPUs (scanLoop w atof rep buf)) =
           length (CPUs rep) + length (filter (\<lambda>l. fst (split l) = []) (Scanner_lines buf))"
proof -
  have "CPUs (fst (scanLines w atof (rep, zeroCPU) (ls @ rest))) =
        CPUs (fst (scanLines w atof (rep, zeroCPU) ls))"
    using assms(2) by (simp add: scanLines_append scanLines_fields_CPUs)
  then have "CPUs (scanProc w atof longC longM rep buf) =
      CPUs (sortInfo longC longM (fst (scanLines w atof (rep, zeroCPU) ls)))"
    by (simp add: scanProc_def scanLoop_def sortInfo_def assms(1))
  moreover have "length (CPUs (scanLoop w atof rep buf)) =
      length (CPUs rep) + length (filter (\<lambda>l. fst (split l) = []) (Scanner_lines buf))"
    using scanLines_count [of w atof "(rep, zeroCPU)" "Scanner_lines buf"]
    by (simp add: scanLoop_def)
  ultimately show ?thesis by (rule conjI)
qed

theorem scanProc_trailing_record_witness:
  "Scanner_lines ''processor: 0\<newline>\<newline>processor: 1'' = [''processor: 0'', []] @ [''processor: 1''] \<and>
   fst (split ''processor: 1'') \<noteq> [] \<and>
   map Proc (CPUs (scanProc 64 (\<lambda>_. 0::int) (insertionSort (\<lambda>a b. Proc a < Proc b))
        (insertionSort (\<lambda>a b. Key a < Key b)) \<lparr>CPUs = [], Misc = []\<rparr>
        ''processor: 0\<newline>\<newline>processor: 1'')) = [0]"
proof -
  have h1: "Scanner_lines ''processor: 0\<newline>\<newline>processor: 1'' =
      [''processor: 0'', []] @ [''processor: 1'']"
    by (simp add: Scanner_lines.simps MaxScanTokenSize_def dropCR_def)
  have h2: "\<forall>l\<in>set [''processor: 1'']. fst (split l) \<noteq> []"
    by (simp add: split_eval)
  have r: "map Proc (CPUs (sortInfo (insertionSort (\<lambda>a b. Proc a < Proc b))
        (insertionSort (\<lambda>a b. Key a < Key b))
        (fst (scanLines 64 (\<lambda>_. 0::int) (\<lparr>CPUs = [], Misc = []\<rparr>, zeroCPU)
           [''processor: 0'', []])))) = [0]"
    by (simp add: scanLines_def scanLine_def sortInfo_def sort_Slice_def insertionSort_def
        split_eval atoi_eval zeroCPU_def)
  have "CPUs (scanProc 64 (\<lambda>_. 0::int) (insertionSort (\<lambda>a b. Proc a < Proc b))
        (insertionSort (\<lambda>a b. Key a < Key b)) \<lparr>CPUs = [], Misc = []\<rparr>
        ''processor: 0\<newline>\<newline>processor: 1'') =
      CPUs (sortInfo (insertionSort (\<lambda>a b. Proc a < Proc b))
        (insertionSort (\<lambda>a b. Key a < Key b))
        (fst (scanLines 64 (\<lambda>_. 0::int) (\<lparr>CPUs = [], Misc = []\<rparr>, zeroCPU)
           [''processor: 0'', []])))"
    using scanProc_trailing_record [OF h1 h2] by (rule conjunct1)
  with r have "map Proc (CPUs (scanProc 64 (\<lambda>_. 0::int) (insertionSort (\<lambda>a b. Proc a < Proc b))
        (insertionSort (\<lambda>a b. Key a < Key b)) \<lparr>CPUs = [], Misc = []\<rparr>
        ''processor: 0\<newline>\<newline>processor: 1'')) = [0]"
    by (simp only:)
  moreover have "fst (split ''processor: 1'') \<noteq> []"
    using h2 by simp
  ultimately show ?thesis using h1 by (intro conjI)
qed

subsection \<open>The final sorts\<close>

lemma mset_siftLeft: "mset (siftLeft lt x ys) = add_mset x (mset ys)"
  by (induction ys) auto

lemma set_siftLeft: "set (siftLeft lt x ys) = insert x (set ys)"
  by (induction ys) auto

lemma sorted_siftLeft:
  fixes f :: "'a \<Rightarrow> 'k::linorder"
  shows "sorted_wrt (\<lambda>a b. f b \<le> f a) ys \<Longrightarrow>
    sorted_wrt (\<lambda>a b. f b \<le> f a) (siftLeft (\<lambda>a b. f a < f b) x ys)"
  by (induction ys) (auto simp: set_siftLeft)

lemma filter_siftLeft:
  fixes f :: "'a \<Rightarrow> 'k::linorder"
  shows "filter (\<lambda>z. k = f z) (siftLeft (\<lambda>a b. f a < f b) x ys) = filter (\<lambda>z. k = f z) (x # ys)"
  by (induction ys) auto

lemma foldl_siftLeft:
  fixes f :: "'a \<Rightarrow> 'k::linorder"
  assumes "sorted_wrt (\<lambda>a b. f b \<le> f a) acc"
  shows "mset (foldl (\<lambda>ys x. siftLeft (\<lambda>a b. f a < f b) x ys) acc xs) = mset acc + mset xs \<and>
    sorted_wrt (\<lambda>a b. f b \<le> f a) (foldl (\<lambda>ys x. siftLeft (\<lambda>a b. f a < f b) x ys) acc xs) \<and>
    filter (\<lambda>z. k = f z) (foldl (\<lambda>ys x. siftLeft (\<lambda>a b. f a < f b) x ys) acc xs) =
      rev (filter (\<lambda>z. k = f z) xs) @ filter (\<lambda>z. k = f z) acc"
  using assms
proof (induction xs arbitrary: acc)
  case Nil
  then show ?case by simp
next
  case (Cons x xs)
  have s: "sorted_wrt (\<lambda>a b. f b \<le> f a) (siftLeft (\<lambda>a b. f a < f b) x acc)"
    using Cons.prems by (rule sorted_siftLeft)
  show ?case
    using Cons.IH [OF s] by (simp add: mset_siftLeft filter_siftLeft)
qed

lemma insertionSort_key:
  fixes f :: "'a \<Rightarrow> 'k::linorder"
  shows "mset (insertionSort (\<lambda>a b. f a < f b) xs) = mset xs"
    and "sorted_wrt (\<lambda>a b. f a \<le> f b) (insertionSort (\<lambda>a b. f a < f b) xs)"
    and "filter (\<lambda>z. k = f z) (insertionSort (\<lambda>a b. f a < f b) xs) = filter (\<lambda>z. k = f z) xs"
proof -
  note h = foldl_siftLeft [of f "[]" xs k]
  show "mset (insertionSort (\<lambda>a b. f a < f b) xs) = mset xs"
    using h by (simp add: insertionSort_def)
  show "sorted_wrt (\<lambda>a b. f a \<le> f b) (insertionSort (\<lambda>a b. f a < f b) xs)"
    using h by (simp add: insertionSort_def sorted_wrt_rev)
  have "filter (\<lambda>z. k = f z) (foldl (\<lambda>ys x. siftLeft (\<lambda>a b. f a < f b) x ys) [] xs) =
      rev (filter (\<lambda>z. k = f z) xs)"
    using h by simp
  then show "filter (\<lambda>z. k = f z) (insertionSort (\<lambda>a b. f a < f b) xs) = filter (\<lambda>z. k = f z) xs"
    by (simp add: insertionSort_def rev_filter [symmetric])
qed

lemma insertionSort_sort_key:
  fixes f :: "'a \<Rightarrow> 'k::linorder"
  shows "insertionSort (\<lambda>a b. f a < f b) xs = sort_key f xs"
proof (rule properties_for_sort_key [symmetric])
  show "mset (insertionSort (\<lambda>a b. f a < f b) xs) = mset xs"
    by (rule insertionSort_key)
  show "\<And>k. k \<in> set (insertionSort (\<lambda>a b. f a < f b) xs) \<Longrightarrow>
      filter (\<lambda>x. f k = f x) (insertionSort (\<lambda>a b. f a < f b) xs) = filter (\<lambda>x. f k = f x) xs"
    by (rule insertionSort_key)
  show "sorted (map f (insertionSort (\<lambda>a b. f a < f b) xs))"
    using insertionSort_key(2) [of f xs] by (simp add: sorted_map)
qed

lemma insertionSort_sorts:
  fixes f :: "'a \<Rightarrow> 'k::linorder"
  shows "sorts (\<lambda>a b. f a < f b) (insertionSort (\<lambda>a b. f a < f b))"
  using insertionSort_key(1,2) [of f] by (simp add: sorts_def not_less)

lemma sort_Slice_key:
  fixes f :: "'a \<Rightarrow> 'k::linorder"
  assumes "sorts (\<lambda>a b. f a < f b) long"
  shows "mset (sort_Slice long (\<lambda>a b. f a < f b) xs) = mset xs"
    and "sorted_wrt (\<lambda>a b. f a \<le> f b) (sort_Slice long (\<lambda>a b. f a < f b) xs)"
    and "length xs < 7 \<Longrightarrow> sort_Slice long (\<lambda>a b. f a < f b) xs = sort_key f xs"
  using assms insertionSort_key(1,2) [of f xs]
  by (simp_all add: sort_Slice_def sorts_def not_less insertionSort_sort_key)

lemma length_gapPass_step:
  "length (foldl (\<lambda>ys i. if lt (ys ! i) (ys ! (i - 6)) then ys[i := ys ! (i - 6), i - 6 := ys ! i] else ys) xs is) = length xs"
  by (induction "is" arbitrary: xs) auto

lemma mset_gapPass_step:
  "\<forall>i\<in>set is. i < length xs \<Longrightarrow>
   mset (foldl (\<lambda>ys i. if lt (ys ! i) (ys ! (i - 6)) then ys[i := ys ! (i - 6), i - 6 := ys ! i] else ys) xs is) = mset xs"
proof (induction "is" arbitrary: xs)
  case Nil
  show ?case by simp
next
  case (Cons i "is")
  from Cons.prems have i: "i < length xs" and r: "\<forall>j\<in>set is. j < length xs" by simp_all
  have sw: "mset (xs[i := xs ! (i - 6), i - 6 := xs ! i]) = mset xs"
    using i by (simp add: mset_swap)
  show ?case
  proof (cases "lt (xs ! i) (xs ! (i - 6))")
    case True
    have "\<forall>j\<in>set is. j < length (xs[i := xs ! (i - 6), i - 6 := xs ! i])" using r by simp
    from Cons.IH [OF this] True sw show ?thesis by simp
  next
    case False
    with Cons.IH [OF r] show ?thesis by simp
  qed
qed

lemma mset_gapPass: "mset (gapPass lt xs) = mset xs"
  by (simp add: gapPass_def mset_gapPass_step)

lemma shellInsertionSort_sorts:
  fixes f :: "'a \<Rightarrow> 'k::linorder"
  shows "sorts (\<lambda>a b. f a < f b) (shellInsertionSort (\<lambda>a b. f a < f b))"
  using insertionSort_key(1,2) [of f]
  by (simp add: sorts_def shellInsertionSort_def not_less mset_gapPass)

text \<open>
  Claim C2, as the code has it.  When \<open>scanProc\<close> returns, the CPU sequence is sorted by
  \<open>Proc\<close> ascending and the generic pairs by \<open>Key\<close> ascending, and each is a rearrangement of
  what the loop collected.  \<open>sort.Slice\<close> is not a stable sort: the order of entries with
  equal keys is the input order for fewer than seven entries (\<open>sort_key\<close> is the stable sort
  of the HOL library) and is not determined by the library's contract for more.
\<close>

theorem scanProc_sorted:
  assumes "sorts (\<lambda>a b. Proc a < Proc b) longC" and "sorts (\<lambda>a b. Key a < Key b) longM"
  shows "sorted_wrt (\<lambda>a b. Proc a \<le> Proc b) (CPUs (scanProc w atof longC longM rep buf)) \<and>
    mset (CPUs (scanProc w atof longC longM rep buf)) = mset (CPUs (scanLoop w atof rep buf)) \<and>
    (length (CPUs (scanLoop w atof rep buf)) < 7 \<longrightarrow>
       CPUs (scanProc w atof longC longM rep buf) = sort_key Proc (CPUs (scanLoop w atof rep buf))) \<and>
    sorted_wrt (\<lambda>a b. Key a \<le> Key b) (Misc (scanProc w atof longC longM rep buf)) \<and>
    mset (Misc (scanProc w atof longC longM rep buf)) = mset (Misc (scanLoop w atof rep buf)) \<and>
    (length (Misc (scanLoop w atof rep buf)) < 7 \<longrightarrow>
       Misc (scanProc w atof longC longM rep buf) = sort_key Key (Misc (scanLoop w atof rep buf)))"
  using sort_Slice_key [OF assms(1), of "CPUs (scanLoop w atof rep buf)"]
    sort_Slice_key [OF assms(2), of "Misc (scanLoop w atof rep buf)"]
  by (simp add: scanProc_def sortInfo_def)

theorem scanProc_sorted_witness:
  "sorts (\<lambda>a b. Proc a < Proc b) (insertionSort (\<lambda>a b. Proc a < Proc b) :: int CPU list \<Rightarrow> int CPU list) \<and>
   sorts (\<lambda>a b. Key a < Key b) (insertionSort (\<lambda>a b. Key a < Key b) :: Pair list \<Rightarrow> Pair list) \<and>
   sorted_wrt (\<lambda>a b. Proc a \<le> Proc b)
     (CPUs (scanProc 64 (\<lambda>_. 0::int) (insertionSort (\<lambda>a b. Proc a < Proc b))
        (insertionSort (\<lambda>a b. Key a < Key b)) \<lparr>CPUs = [], Misc = []\<rparr>
        ''processor: 3\<newline>\<newline>processor: 1\<newline>\<newline>z: 1\<newline>y: 2'')) \<and>
   map Proc
     (CPUs (scanProc 64 (\<lambda>_. 0::int) (insertionSort (\<lambda>a b. Proc a < Proc b))
        (insertionSort (\<lambda>a b. Key a < Key b)) \<lparr>CPUs = [], Misc = []\<rparr>
        ''processor: 3\<newline>\<newline>processor: 1\<newline>\<newline>z: 1\<newline>y: 2'')) = [1, 3] \<and>
   map Key
     (Misc (scanProc 64 (\<lambda>_. 0::int) (insertionSort (\<lambda>a b. Proc a < Proc b))
        (insertionSort (\<lambda>a b. Key a < Key b)) \<lparr>CPUs = [], Misc = []\<rparr>
        ''processor: 3\<newline>\<newline>processor: 1\<newline>\<newline>z: 1\<newline>y: 2'')) = [''y'', ''z'']"
proof -
  have s1: "sorts (\<lambda>a b. Proc a < Proc b)
      (insertionSort (\<lambda>a b. Proc a < Proc b) :: int CPU list \<Rightarrow> int CPU list)"
    by (rule insertionSort_sorts)
  have s2: "sorts (\<lambda>a b. Key a < Key b) (insertionSort (\<lambda>a b. Key a < Key b) :: Pair list \<Rightarrow> Pair list)"
    by (rule insertionSort_sorts)
  have t: "sorted_wrt (\<lambda>a b. Proc a \<le> Proc b)
     (CPUs (scanProc 64 (\<lambda>_. 0::int) (insertionSort (\<lambda>a b. Proc a < Proc b))
        (insertionSort (\<lambda>a b. Key a < Key b)) \<lparr>CPUs = [], Misc = []\<rparr>
        ''processor: 3\<newline>\<newline>processor: 1\<newline>\<newline>z: 1\<newline>y: 2''))"
    using scanProc_sorted [OF s1 s2] by (rule conjunct1)
  have e1: "map Proc
     (CPUs (scanProc 64 (\<lambda>_. 0::int) (insertionSort (\<lambda>a b. Proc a < Proc b))
        (insertionSort (\<lambda>a b. Key a < Key b)) \<lparr>CPUs = [], Misc = []\<rparr>
        ''processor: 3\<newline>\<newline>processor: 1\<newline>\<newline>z: 1\<newline>y: 2'')) = [1, 3]"
    by (simp add: scan_eval split_eval atoi_eval zeroCPU_def)
  have e2: "map Key
     (Misc (scanProc 64 (\<lambda>_. 0::int) (insertionSort (\<lambda>a b. Proc a < Proc b))
        (insertionSort (\<lambda>a b. Key a < Key b)) \<lparr>CPUs = [], Misc = []\<rparr>
        ''processor: 3\<newline>\<newline>processor: 1\<newline>\<newline>z: 1\<newline>y: 2'')) = [''y'', ''z'']"
    by (simp add: scan_eval split_eval atoi_eval zeroCPU_def)
  from s1 s2 t e1 e2 show ?thesis by (intro conjI)
qed

text \<open>
  The order of the output is not independent of the order of the input: the same two pairs
  in the two orders give two different sequences.  Nor is the sort stable: with the routine of
  Go 1.18, seven pairs of which the first and the fourth have the same key come out with the
  fourth before the first.
\<close>

theorem scanProc_order_counterexample:
  "Misc (scanProc 64 (\<lambda>_. 0::int) (insertionSort (\<lambda>a b. Proc a < Proc b))
      (insertionSort (\<lambda>a b. Key a < Key b)) \<lparr>CPUs = [], Misc = []\<rparr> ''b: 1\<newline>b: 2'') =
     [\<lparr>Key = ''b'', Value = ''1''\<rparr>, \<lparr>Key = ''b'', Value = ''2''\<rparr>] \<and>
   Misc (scanProc 64 (\<lambda>_. 0::int) (insertionSort (\<lambda>a b. Proc a < Proc b))
      (insertionSort (\<lambda>a b. Key a < Key b)) \<lparr>CPUs = [], Misc = []\<rparr> ''b: 2\<newline>b: 1'') =
     [\<lparr>Key = ''b'', Value = ''2''\<rparr>, \<lparr>Key = ''b'', Value = ''1''\<rparr>] \<and>
   Misc (scanProc 64 (\<lambda>_. 0::int) (insertionSort (\<lambda>a b. Proc a < Proc b))
      (shellInsertionSort (\<lambda>a b. Key a < Key b)) \<lparr>CPUs = [], Misc = []\<rparr>
      ''k: 0\<newline>c: 1\<newline>d: 2\<newline>k: 3\<newline>l: 4\<newline>m: 5\<newline>b: 6'') =
     [\<lparr>Key = ''b'', Value = ''6''\<rparr>, \<lparr>Key = ''c'', Value = ''1''\<rparr>, \<lparr>Key = ''d'', Value = ''2''\<rparr>,
      \<lparr>Key = ''k'', Value = ''3''\<rparr>, \<lparr>Key = ''k'', Value = ''0''\<rparr>, \<lparr>Key = ''l'', Value = ''4''\<rparr>,
      \<lparr>Key = ''m'', Value = ''5''\<rparr>]"
  by (simp add: scan_eval split_eval zeroCPU_def shellInsertionSort_def gapPass_def upt_rec)

subsection \<open>Numerals through \<open>ParseUint\<close>\<close>

lemma of_char_digitChar:
  "d < 16 \<Longrightarrow> of_char (digitChar d) = (if d < 10 then 48 + d else 87 + d)"
  by (simp add: digitChar_def)

lemma lower_hex_letter: "10 \<le> d \<Longrightarrow> d < 16 \<Longrightarrow> lower (87 + d) = 87 + d"
proof -
  assume "10 \<le> d" "d < 16"
  then consider "d = 10" | "d = 11" | "d = 12" | "d = 13" | "d = 14" | "d = 15" by linarith
  then show ?thesis by cases (simp_all add: lower_def)
qed

lemma parseDigits_digit:
  assumes "d < b" "b \<le> 16" "n < cutoff" "n * b + d \<le> mx" "mx < 2 ^ 64"
  shows "parseDigits b cutoff mx n us (digitChar d # cs) = parseDigits b cutoff mx (n * b + d) us cs"
proof -
  have d16: "d < 16" using assms by simp
  have lt: "n * b + d < 2 ^ 64" "n * b < 2 ^ 64" using assms by simp_all
  show ?thesis
  proof (cases "d < 10")
    case True
    then show ?thesis
      using assms lt by (simp add: of_char_digitChar d16 isDigit_def Let_def)
  next
    case False
    then have l: "lower (87 + d) = 87 + d" using d16 by (simp add: lower_hex_letter)
    from False show ?thesis
      using assms lt d16 by (simp add: of_char_digitChar isDigit_def isLetter_def l Let_def)
  qed
qed

lemma parseDigits_append:
  "parseDigits b cutoff mx n us (xs @ ys) =
    (case parseDigits b cutoff mx n us xs of
       Inl (n', us') \<Rightarrow> parseDigits b cutoff mx n' us' ys
     | Inr e \<Rightarrow> Inr e)"
  by (induction xs arbitrary: n us) (simp_all add: Let_def)

lemma parseDigits_FormatUint:
  "2 \<le> b \<Longrightarrow> b \<le> 16 \<Longrightarrow> mx \<le> maxUint64 \<Longrightarrow> m \<le> mx \<Longrightarrow>
    parseDigits b (maxUint64 div b + 1) mx 0 us (FormatUint m b) = Inl (m, us)"
proof (induction m b rule: FormatUint.induct)
  case (1 n b)
  have mx: "mx < 2 ^ 64" using 1(4) by (simp add: maxUint64_def)
  show ?case
  proof (cases "n < b")
    case True
    have "parseDigits b (maxUint64 div b + 1) mx 0 us (digitChar n # []) =
        parseDigits b (maxUint64 div b + 1) mx (0 * b + n) us []"
      using True 1(3) 1(5) mx by (intro parseDigits_digit) simp_all
    then show ?thesis using True by (simp add: FormatUint.simps [of n b])
  next
    case False
    with 1(2) have rec: "\<not> (n < b \<or> b < 2)" by simp
    have le: "n div b \<le> mx" using 1(5) by (meson div_le_dividend le_trans)
    have ih: "parseDigits b (maxUint64 div b + 1) mx 0 us (FormatUint (n div b) b) =
        Inl (n div b, us)"
      using rec 1(2) 1(3) 1(4) le by (rule "1.IH")
    have "n \<le> maxUint64" using 1(4) 1(5) by simp
    then have cut: "n div b < maxUint64 div b + 1"
      by (simp add: div_le_mono less_Suc_eq_le)
    have "n mod b < b" using 1(2) by simp
    then have step: "parseDigits b (maxUint64 div b + 1) mx (n div b) us (digitChar (n mod b) # []) =
        parseDigits b (maxUint64 div b + 1) mx (n div b * b + n mod b) us []"
      using 1(3) cut 1(5) mx by (intro parseDigits_digit) simp_all
    show ?thesis
      using rec ih step
      by (simp add: FormatUint.simps [of n b] parseDigits_append)
  qed
qed

lemma FormatUint_not_Nil: "FormatUint m b \<noteq> []"
  by (simp add: FormatUint.simps [of m b])

lemma hd_FormatUint:
  "2 \<le> b \<Longrightarrow> b \<le> 16 \<Longrightarrow> 0 < m \<Longrightarrow> hd (FormatUint m b) \<noteq> CHR ''0''"
proof (induction m b rule: FormatUint.induct)
  case (1 n b)
  show ?case
  proof (cases "n < b")
    case True
    then have "n < 16" using 1(3) by simp
    then have "of_char (digitChar n) \<noteq> (48 :: nat)"
      using 1(4) by (simp add: of_char_digitChar)
    then have "digitChar n \<noteq> CHR ''0''" by auto
    then show ?thesis using True by (simp add: FormatUint.simps [of n b])
  next
    case False
    with 1(2) have rec: "\<not> (n < b \<or> b < 2)" by simp
    have "0 < n div b" using False 1(2) by (simp add: div_greater_zero_iff)
    with rec 1 have "hd (FormatUint (n div b) b) \<noteq> CHR ''0''" by blast
    then show ?thesis
      using rec by (simp add: FormatUint.simps [of n b] FormatUint_not_Nil)
  qed
qed

lemma set_FormatUint:
  "2 \<le> b \<Longrightarrow> c \<in> set (FormatUint m b) \<Longrightarrow> \<exists>d<b. c = digitChar d"
proof (induction m b rule: FormatUint.induct)
  case (1 n b)
  show ?case
  proof (cases "n < b")
    case True
    with 1(3) show ?thesis by (auto simp: FormatUint.simps [of n b])
  next
    case False
    with 1(2) have rec: "\<not> (n < b \<or> b < 2)" by simp
    from 1(3) rec have "c \<in> set (FormatUint (n div b) b) \<or> c = digitChar (n mod b)"
      by (auto simp: FormatUint.simps [of n b])
    then show ?thesis
    proof
      assume "c \<in> set (FormatUint (n div b) b)"
      with rec 1(1,2) show ?thesis by blast
    next
      assume "c = digitChar (n mod b)"
      moreover have "n mod b < b" using 1(2) by simp
      ultimately show ?thesis by blast
    qed
  qed
qed

lemma FormatUint_decimal_chars:
  "CHR '' '' \<notin> set (FormatUint m 10)" "CHR '','' \<notin> set (FormatUint m 10)"
proof -
  have "\<And>c. c \<in> set (FormatUint m 10) \<Longrightarrow> 48 \<le> (of_char c :: nat)"
  proof -
    fix c assume "c \<in> set (FormatUint m 10)"
    then obtain d where "d < 10" "c = digitChar d" using set_FormatUint [of 10 c m] by auto
    then show "48 \<le> (of_char c :: nat)" by (simp add: of_char_digitChar)
  qed
  then show "CHR '' '' \<notin> set (FormatUint m 10)" "CHR '','' \<notin> set (FormatUint m 10)"
    by fastforce+
qed

lemma maxVal_eq: "w = 32 \<or> w = 64 \<Longrightarrow> maxVal w = 2 ^ w - 1"
  by (auto simp: maxVal_def maxUint64_def)

lemma maxVal_le: "w = 32 \<or> w = 64 \<Longrightarrow> (2 ^ w - 1 :: nat) \<le> maxUint64"
  by (auto simp: maxUint64_def)

lemma digitChar_0: "digitChar 0 = CHR ''0''"
proof -
  have "(of_char (digitChar 0) :: nat) = of_char CHR ''0''"
    by (simp add: of_char_digitChar)
  then show ?thesis by (simp only: of_char_eq_iff)
qed

lemma basePrefix_decimal:
  assumes "0 < m"
  shows "basePrefix (FormatUint m 10) = (10, FormatUint m 10)"
proof -
  obtain z r where zr: "FormatUint m 10 = z # r"
    using FormatUint_not_Nil [of m 10] by (cases "FormatUint m 10") auto
  have "hd (FormatUint m 10) \<noteq> CHR ''0''" using assms by (intro hd_FormatUint) simp_all
  then have "z \<noteq> CHR ''0''" by (simp add: zr)
  then show ?thesis by (simp add: basePrefix_def zr)
qed

lemma ParseUint_decimal:
  assumes w: "w = 32 \<or> w = 64" and m: "m < 2 ^ w"
  shows "ParseUint (FormatUint m 10) w = (m, None)"
proof (cases "m = 0")
  case True
  then show ?thesis
    by (simp add: ParseUint_def FormatUint.simps [of 0 10] digitChar_0 basePrefix_def)
next
  case False
  then have pos: "0 < m" by simp
  have le: "m \<le> 2 ^ w - 1" using m by simp
  have "parseDigits 10 (maxUint64 div 10 + 1) (2 ^ w - 1) 0 False (FormatUint m 10) =
      Inl (m, False)"
    using maxVal_le [OF w] le by (intro parseDigits_FormatUint) simp_all
  then show ?thesis
    unfolding ParseUint_def basePrefix_decimal [OF pos] maxVal_eq [OF w]
    by (simp add: FormatUint_not_Nil)
qed

lemma wrap_id:
  assumes "0 < w" "- (2 ^ (w - 1)) \<le> z" "z < 2 ^ (w - 1)"
  shows "wrap w z = z"
proof -
  have p: "(2::int) ^ w = 2 * 2 ^ (w - 1)"
    using assms(1) by (cases w) simp_all
  have "(z + 2 ^ (w - 1)) mod 2 ^ w = z + 2 ^ (w - 1)"
    using assms(2,3) p by (intro mod_pos_pos_trivial) simp_all
  then show ?thesis by (simp add: wrap_def)
qed

lemma wrap_maxVal: "w = 32 \<or> w = 64 \<Longrightarrow> wrap w (int (2 ^ w - 1)) = -1"
  by (auto simp: wrap_def)

lemma wrap_0: "w = 32 \<or> w = 64 \<Longrightarrow> wrap w 0 = 0"
  by (auto simp: wrap_def)

lemma atoi_decimal:
  assumes w: "w = 32 \<or> w = 64" and m: "m < 2 ^ (w - 1)"
  shows "atoi w (FormatUint m 10) = int m"
proof -
  have "(2::nat) ^ (w - 1) \<le> 2 ^ w" by (intro power_increasing) simp_all
  then have mw: "m < 2 ^ w" using m by linarith
  have "atoi w (FormatUint m 10) = wrap w (int m)"
    by (simp only: atoi_def ParseUint_decimal [OF w mw] fst_conv)
  also have "\<dots> = int m"
  proof (rule wrap_id)
    show "0 < w" using w by auto
    show "- (2 ^ (w - 1)) \<le> int m" by (smt (verit) of_nat_0_le_iff zero_less_power)
    have "int m < int (2 ^ (w - 1))" using m by (simp only: of_nat_less_iff)
    then show "int m < 2 ^ (w - 1)" by simp
  qed
  finally show ?thesis .
qed

lemma parseDigits_Inr:
  "parseDigits b cutoff mx n us s = Inr (v, e) \<Longrightarrow>
    (e = ErrSyntax \<and> v = 0) \<or> (e = ErrRange \<and> v = mx)"
  by (induction s arbitrary: n us) (auto simp: Let_def split: if_splits)

lemma ParseUint_error:
  assumes w: "w = 32 \<or> w = 64"
  shows "ParseUint s w = (v, Some ErrSyntax) \<Longrightarrow> v = 0"
    and "ParseUint s w = (v, Some ErrRange) \<Longrightarrow> v = 2 ^ w - 1"
  using parseDigits_Inr [of "fst (basePrefix s)" "maxUint64 div fst (basePrefix s) + 1"
      "maxVal w" 0 False "snd (basePrefix s)"]
  by (auto simp: ParseUint_def maxVal_eq [OF w] Let_def split_beta
      split: if_splits sum.splits prod.splits)

lemma atoi_cases:
  assumes w: "w = 32 \<or> w = 64"
  shows "atoi w s =
    (case ParseUint s w of
       (x, None) \<Rightarrow> wrap w (int x)
     | (x, Some ErrSyntax) \<Rightarrow> 0
     | (x, Some ErrRange) \<Rightarrow> -1)"
proof (cases "ParseUint s w")
  case (Pair x eo)
  show ?thesis
  proof (cases eo)
    case None
    with Pair show ?thesis by (simp add: atoi_def)
  next
    case (Some e)
    show ?thesis
    proof (cases e)
      case ErrSyntax
      with Pair Some ParseUint_error(1) [OF w, of s x] show ?thesis
        by (simp add: atoi_def wrap_0 [OF w])
    next
      case ErrRange
      with Pair Some ParseUint_error(2) [OF w, of s x] have x: "x = 2 ^ w - 1" by simp
      have "atoi w s = wrap w (int (2 ^ w - 1))"
        by (simp only: atoi_def Pair x fst_conv)
      also have "\<dots> = -1" using w by (rule wrap_maxVal)
      finally show ?thesis by (simp add: Pair Some ErrRange)
    qed
  qed
qed

lemma digitChar_eqI:
  "d < 16 \<Longrightarrow> (if d < 10 then 48 + d else 87 + d) = (of_char c :: nat) \<Longrightarrow> digitChar d = c"
  using of_char_digitChar [of d] of_char_eq_iff [of "digitChar d" c, where 'a = nat] by simp

lemma digitChar_eval:
  "digitChar 0 = CHR ''0''" "digitChar 1 = CHR ''1''" "digitChar 2 = CHR ''2''"
  "digitChar 3 = CHR ''3''" "digitChar 4 = CHR ''4''" "digitChar 5 = CHR ''5''"
  "digitChar 6 = CHR ''6''" "digitChar 7 = CHR ''7''" "digitChar 8 = CHR ''8''"
  "digitChar 9 = CHR ''9''" "digitChar 10 = CHR ''a''" "digitChar 11 = CHR ''b''"
  "digitChar 12 = CHR ''c''" "digitChar 13 = CHR ''d''" "digitChar 14 = CHR ''e''"
  "digitChar 15 = CHR ''f''" "digitChar (Suc 0) = CHR ''1''"
  by (rule digitChar_eqI; simp)+

lemmas FormatUint_eval = FormatUint.simps digitChar_eval

lemma nat_less_of_int_less:
  assumes "int n * c < 2 ^ k" "1 \<le> c"
  shows "n < 2 ^ k"
proof -
  have "int n \<le> int n * c" using assms(2) by (simp add: mult_le_cancel_left1)
  then have "int n < 2 ^ k" using assms(1) by linarith
  then have "int n < int (2 ^ k)" by simp
  then show ?thesis by (simp only: of_nat_less_iff)
qed

lemma wrap_product:
  assumes w: "w = 32 \<or> w = 64" and "int n * c < 2 ^ (w - 1)" "0 \<le> c"
  shows "wrap w (int n * c) = int n * c"
proof (rule wrap_id)
  show "0 < w" using w by auto
  have "0 \<le> int n * c" using assms(3) by simp
  then show "- (2 ^ (w - 1)) \<le> int n * c" by (smt (verit) zero_less_power)
  show "int n * c < 2 ^ (w - 1)" by (rule assms(2))
qed

subsection \<open>The integer parser\<close>

lemma lower_letter:
  "97 \<le> c \<Longrightarrow> c \<le> 102 \<Longrightarrow> lower c = c"
  "65 \<le> c \<Longrightarrow> c \<le> 70 \<Longrightarrow> lower c = c + 32"
proof -
  assume "97 \<le> c" "c \<le> 102"
  then consider "c = 97" | "c = 98" | "c = 99" | "c = 100" | "c = 101" | "c = 102" by linarith
  then show "lower c = c" by cases (simp_all add: lower_def)
next
  assume "65 \<le> c" "c \<le> 70"
  then consider "c = 65" | "c = 66" | "c = 67" | "c = 68" | "c = 69" | "c = 70" by linarith
  then show "lower c = c + 32" by cases (simp_all add: lower_def)
qed

lemma parseDigits_step:
  assumes "of_char ch = c" "c \<noteq> 95" "isDigit c \<or> isLetter c"
    "(if isDigit c then c - 48 else lower c - 97 + 10) = d"
    "d < b" "n < cutoff" "n * b + d \<le> mx" "mx < 2 ^ 64"
  shows "parseDigits b cutoff mx n us (ch # cs) = parseDigits b cutoff mx (n * b + d) us cs"
proof -
  have lt: "n * b + d < 2 ^ 64" "n * b < 2 ^ 64" using assms by simp_all
  show ?thesis
  proof (cases "isDigit c")
    case True
    with assms(1,2,4-8) lt show ?thesis by (simp add: Let_def)
  next
    case False
    with assms(3) have "isLetter c" by simp
    with False assms(1,2,4-8) lt show ?thesis by (simp add: Let_def)
  qed
qed

lemma parseDigits_char:
  assumes "digitVal ch < b" "b \<le> 16" "n < cutoff" "n * b + digitVal ch \<le> mx" "mx < 2 ^ 64"
  shows "parseDigits b cutoff mx n us (ch # cs) =
    parseDigits b cutoff mx (n * b + digitVal ch) us cs"
proof -
  define c where "c = (of_char ch :: nat)"
  have d16: "digitVal ch < 16" using assms by simp
  consider (dig) "48 \<le> c" "c \<le> 57"
    | (low) "97 \<le> c" "c \<le> 102"
    | (upp) "65 \<le> c" "c \<le> 70"
    using d16 unfolding digitVal_def c_def Let_def by (auto split: if_splits)
  then have "c \<noteq> 95 \<and> (isDigit c \<or> isLetter c) \<and>
      (if isDigit c then c - 48 else lower c - 97 + 10) = digitVal ch"
  proof cases
    case dig
    then show ?thesis by (simp add: digitVal_def c_def isDigit_def)
  next
    case low
    have l: "lower c = c" using low by (rule lower_letter)
    from low show ?thesis by (simp add: digitVal_def c_def [symmetric] isDigit_def isLetter_def l)
  next
    case upp
    have l: "lower c = c + 32" using upp by (rule lower_letter)
    from upp show ?thesis by (simp add: digitVal_def c_def [symmetric] isDigit_def isLetter_def l)
  qed
  then show ?thesis
    using assms c_def by (intro parseDigits_step [where c = c]) simp_all
qed

lemma foldl_digits_ge: "a \<le> foldl (\<lambda>a ch. a * b + digitVal ch) a cs" if "1 \<le> b" for b :: nat
proof (induction cs arbitrary: a)
  case Nil
  show ?case by simp
next
  case (Cons ch cs)
  have "a \<le> a * b + digitVal ch" using that by (simp add: trans_le_add1)
  also have "\<dots> \<le> foldl (\<lambda>a ch. a * b + digitVal ch) (a * b + digitVal ch) cs" by (rule Cons.IH)
  finally show ?case by simp
qed

lemma parseDigits_numeral:
  assumes b: "2 \<le> b" "b \<le> 16" and mx: "mx \<le> maxUint64"
  shows "list_all (\<lambda>ch. digitVal ch < b) cs \<Longrightarrow>
    foldl (\<lambda>a ch. a * b + digitVal ch) n cs \<le> mx \<Longrightarrow>
    parseDigits b (maxUint64 div b + 1) mx n us cs =
      Inl (foldl (\<lambda>a ch. a * b + digitVal ch) n cs, us)"
proof (induction cs arbitrary: n)
  case Nil
  show ?case by simp
next
  case (Cons ch cs)
  have mx64: "mx < 2 ^ 64" using mx by (simp add: maxUint64_def)
  from Cons.prems(1) have d: "digitVal ch < b" and r: "list_all (\<lambda>ch. digitVal ch < b) cs"
    by simp_all
  have "n * b + digitVal ch \<le> foldl (\<lambda>a ch. a * b + digitVal ch) (n * b + digitVal ch) cs"
    using b(1) by (intro foldl_digits_ge) simp
  with Cons.prems(2) have le: "n * b + digitVal ch \<le> mx" by simp
  then have "n * b \<le> maxUint64" using mx by simp
  then have "n * b div b \<le> maxUint64 div b" by (rule div_le_mono)
  then have cut: "n < maxUint64 div b + 1" using b(1) by simp
  have "parseDigits b (maxUint64 div b + 1) mx n us (ch # cs) =
      parseDigits b (maxUint64 div b + 1) mx (n * b + digitVal ch) us cs"
    using d b(2) cut le mx64 by (rule parseDigits_char)
  also have "\<dots> = Inl (foldl (\<lambda>a ch. a * b + digitVal ch) (n * b + digitVal ch) cs, us)"
    using r Cons.prems(2) by (intro Cons.IH) simp_all
  finally show ?case by simp
qed

lemma basePrefix_no_zero: "hd cs \<noteq> CHR ''0'' \<Longrightarrow> basePrefix cs = (10, cs)"
  by (cases cs) (simp_all add: basePrefix_def)

lemma basePrefix_0x: "hs \<noteq> [] \<Longrightarrow> basePrefix (''0x'' @ hs) = (16, hs)"
  by (simp add: basePrefix_def lower_def)

lemma ParseUint_decimal_numeral:
  assumes w: "w = 32 \<or> w = 64" and n: "isNumeral 10 ds" and z: "hd ds \<noteq> CHR ''0''"
    and v: "numeralValue 10 ds < 2 ^ w"
  shows "ParseUint ds w = (numeralValue 10 ds, None)"
proof -
  from n have ne: "ds \<noteq> []" and ad: "list_all (\<lambda>ch. digitVal ch < 10) ds"
    by (simp_all add: isNumeral_def)
  have le: "foldl (\<lambda>a ch. a * 10 + digitVal ch) 0 ds \<le> 2 ^ w - 1"
    using v by (simp add: numeralValue_def)
  have "parseDigits 10 (maxUint64 div 10 + 1) (2 ^ w - 1) 0 False ds =
      Inl (foldl (\<lambda>a ch. a * 10 + digitVal ch) 0 ds, False)"
    using maxVal_le [OF w] ad le by (intro parseDigits_numeral) simp_all
  then show ?thesis
    unfolding ParseUint_def basePrefix_no_zero [OF z] maxVal_eq [OF w]
    by (simp add: ne numeralValue_def)
qed

lemma ParseUint_hex_numeral:
  assumes w: "w = 32 \<or> w = 64" and n: "isNumeral 16 hs" and v: "numeralValue 16 hs < 2 ^ w"
  shows "ParseUint (''0x'' @ hs) w = (numeralValue 16 hs, None)"
proof -
  from n have ne: "hs \<noteq> []" and ad: "list_all (\<lambda>ch. digitVal ch < 16) hs"
    by (simp_all add: isNumeral_def)
  have le: "foldl (\<lambda>a ch. a * 16 + digitVal ch) 0 hs \<le> 2 ^ w - 1"
    using v by (simp add: numeralValue_def)
  have "parseDigits 16 (maxUint64 div 16 + 1) (2 ^ w - 1) 0 False hs =
      Inl (foldl (\<lambda>a ch. a * 16 + digitVal ch) 0 hs, False)"
    using maxVal_le [OF w] ad le by (intro parseDigits_numeral) simp_all
  then show ?thesis
    unfolding ParseUint_def basePrefix_0x [OF ne] maxVal_eq [OF w]
    by (simp add: numeralValue_def)
qed

lemma ParseUint_zero: "w = 32 \<or> w = 64 \<Longrightarrow> ParseUint ''0'' w = (0, None)"
  by (simp add: ParseUint_def basePrefix_def)

lemma wrap_nat:
  assumes w: "w = 32 \<or> w = 64" and m: "m < 2 ^ (w - 1)"
  shows "wrap w (int m) = int m"
proof (rule wrap_id)
  show "0 < w" using w by auto
  show "- (2 ^ (w - 1)) \<le> int m" by (smt (verit) of_nat_0_le_iff zero_less_power)
  have "int m < int (2 ^ (w - 1))" using m by (simp only: of_nat_less_iff)
  then show "int m < 2 ^ (w - 1)" by simp
qed

lemma less_half_less: "m < 2 ^ (w - 1) \<Longrightarrow> m < (2 :: nat) ^ w"
proof -
  assume m: "m < 2 ^ (w - 1)"
  have "(2::nat) ^ (w - 1) \<le> 2 ^ w" by (intro power_increasing) simp_all
  with m show ?thesis by linarith
qed

lemma atoi_decimal_numeral:
  assumes w: "w = 32 \<or> w = 64" and n: "isNumeral 10 ds"
    and z: "hd ds \<noteq> CHR ''0'' \<or> ds = ''0''" and v: "numeralValue 10 ds < 2 ^ (w - 1)"
  shows "atoi w ds = int (numeralValue 10 ds)"
proof (cases "ds = ''0''")
  case True
  then show ?thesis
    using w by (simp add: atoi_def ParseUint_zero numeralValue_def digitVal_def wrap_0)
next
  case False
  with z have h: "hd ds \<noteq> CHR ''0''" by simp
  have "atoi w ds = wrap w (int (numeralValue 10 ds))"
    by (simp only: atoi_def ParseUint_decimal_numeral [OF w n h less_half_less [OF v]] fst_conv)
  then show ?thesis by (simp only: wrap_nat [OF w v])
qed

lemma atoi_hex_numeral:
  assumes w: "w = 32 \<or> w = 64" and n: "isNumeral 16 hs" and v: "numeralValue 16 hs < 2 ^ (w - 1)"
  shows "atoi w (''0x'' @ hs) = int (numeralValue 16 hs)"
proof -
  have "atoi w (''0x'' @ hs) = wrap w (int (numeralValue 16 hs))"
    by (simp only: atoi_def ParseUint_hex_numeral [OF w n less_half_less [OF v]] fst_conv)
  then show ?thesis by (simp only: wrap_nat [OF w v])
qed

text \<open>
  Claim C8, as the code has it.  \<open>atoi\<close> returns a value for every string and drops the error
  of \<open>ParseUint\<close>: the parsed value converted to \<open>int\<close> when there is no error, 0 after a
  syntax error and -1 after a range error (\<open>ParseUint\<close> then returns the largest value of the
  bit size).  A text of decimal digits without a leading zero, and a text of hexadecimal
  digits after \<open>0x\<close>, parse to their numeric value when it is below \<open>2 ^ (w - 1)\<close>.
\<close>

theorem atoi_total:
  assumes "w = 32 \<or> w = 64"
  shows "atoi w s =
      (case ParseUint s w of
         (x, None) \<Rightarrow> wrap w (int x)
       | (x, Some ErrSyntax) \<Rightarrow> 0
       | (x, Some ErrRange) \<Rightarrow> -1) \<and>
    (isNumeral 10 ds \<and> (hd ds \<noteq> CHR ''0'' \<or> ds = ''0'') \<and> numeralValue 10 ds < 2 ^ (w - 1) \<longrightarrow>
       atoi w ds = int (numeralValue 10 ds)) \<and>
    (isNumeral 16 hs \<and> numeralValue 16 hs < 2 ^ (w - 1) \<longrightarrow>
       atoi w (''0x'' @ hs) = int (numeralValue 16 hs))"
  using atoi_cases [OF assms, of s] atoi_decimal_numeral [OF assms, of ds]
    atoi_hex_numeral [OF assms, of hs]
  by blast

theorem atoi_total_witness:
  "isNumeral 10 ''3336'' \<and> numeralValue 10 ''3336'' = 3336 \<and> atoi 64 ''3336'' = 3336 \<and>
   isNumeral 16 ''D08'' \<and> numeralValue 16 ''D08'' = 3336 \<and> atoi 64 ''0xD08'' = 3336 \<and>
   ParseUint ''4K'' 64 = (0, Some ErrSyntax) \<and> atoi 64 ''4K'' = 0"
proof -
  have d: "isNumeral 10 ''3336''" "numeralValue 10 ''3336'' = 3336"
    by (simp_all add: isNumeral_def numeralValue_def digitVal_def)
  have h: "isNumeral 16 ''D08''" "numeralValue 16 ''D08'' = 3336"
    by (simp_all add: isNumeral_def numeralValue_def digitVal_def)
  have p: "ParseUint ''4K'' 64 = (0, Some ErrSyntax)"
    by (simp add: atoi_eval)
  have w: "(64 :: nat) = 32 \<or> (64 :: nat) = 64" by simp
  note t = atoi_total [OF w, of "''4K''" "''3336''" "''D08''"]
  have a: "atoi 64 ''3336'' = 3336" using t d by simp
  have b: "atoi 64 ''0xD08'' = 3336" using t h by simp
  have c: "atoi 64 ''4K'' = 0" using t p by simp
  from d h p a b c show ?thesis by (intro conjI)
qed

text \<open>
  The claim fails on decimal text with a leading zero, which base 0 reads as octal, and on
  decimal text of a value that does not fit: \<open>2 ^ 64\<close> gives -1, neither the value nor zero,
  and \<open>2 ^ 63\<close> gives a negative number.
\<close>

theorem atoi_counterexample:
  "atoi 64 ''010'' = 8 \<and>
   atoi 64 ''18446744073709551616'' = -1 \<and>
   atoi 64 ''9223372036854775808'' = - 9223372036854775808"
  by (simp add: atoi_eval)

subsection \<open>The cache size\<close>

lemma parseSize_no_space: "CHR '' '' \<notin> set s \<Longrightarrow> parseSize w s = 0"
  by (simp add: parseSize_def IndexByte_notin)

lemma parseSize_unit:
  assumes "CHR '' '' \<notin> set a"
  shows "parseSize w (a @ CHR '' '' # u) =
    (if u = ''KB'' then wrap w (atoi w a * 1024)
     else if u = ''MB'' then wrap w (atoi w a * (1024 * 1024))
     else 0)"
proof -
  have i: "IndexByte (a @ CHR '' '' # u) CHR '' '' = int (length a)"
    using assms by (rule IndexByte_first)
  have d: "nat (int (length a) + 1) = Suc (length a)" by simp
  show ?thesis
    unfolding parseSize_def Let_def i d by simp
qed

text \<open>
  Claim C6, as the code has it.  \<open>parseSize\<close> returns \<open>n * 1024\<close> on \<open><n> KB\<close> and
  \<open>n * 1024 * 1024\<close> on \<open><n> MB\<close> as long as the product is below \<open>2 ^ (w - 1)\<close>, and 0 on
  every string without a space and on every string whose text after the first space is neither
  \<open>KB\<close> nor \<open>MB\<close> (nothing after the space included).
\<close>

theorem parseSize_spec:
  assumes "w = 32 \<or> w = 64"
  shows "(int n * 1024 < 2 ^ (w - 1) \<longrightarrow> parseSize w (FormatUint n 10 @ '' KB'') = int n * 1024) \<and>
    (int n * (1024 * 1024) < 2 ^ (w - 1) \<longrightarrow>
       parseSize w (FormatUint n 10 @ '' MB'') = int n * (1024 * 1024)) \<and>
    (CHR '' '' \<notin> set s \<longrightarrow> parseSize w s = 0) \<and>
    (CHR '' '' \<notin> set a \<and> u \<noteq> ''KB'' \<and> u \<noteq> ''MB'' \<longrightarrow> parseSize w (a @ CHR '' '' # u) = 0)"
proof (intro conjI impI)
  assume b: "int n * 1024 < 2 ^ (w - 1)"
  then have "n < 2 ^ (w - 1)" by (rule nat_less_of_int_less) simp
  then have "atoi w (FormatUint n 10) = int n" using assms by (intro atoi_decimal)
  moreover have "wrap w (int n * 1024) = int n * 1024"
    using assms b by (intro wrap_product) simp_all
  ultimately show "parseSize w (FormatUint n 10 @ '' KB'') = int n * 1024"
    using parseSize_unit [OF FormatUint_decimal_chars(1), of w n "''KB''"] by simp
next
  assume b: "int n * (1024 * 1024) < 2 ^ (w - 1)"
  then have "n < 2 ^ (w - 1)" by (rule nat_less_of_int_less) simp
  then have "atoi w (FormatUint n 10) = int n" using assms by (intro atoi_decimal)
  moreover have "wrap w (int n * (1024 * 1024)) = int n * (1024 * 1024)"
    using assms b by (intro wrap_product) simp_all
  ultimately show "parseSize w (FormatUint n 10 @ '' MB'') = int n * (1024 * 1024)"
    using parseSize_unit [OF FormatUint_decimal_chars(1), of w n "''MB''"] by simp
next
  assume "CHR '' '' \<notin> set s"
  then show "parseSize w s = 0" by (rule parseSize_no_space)
next
  assume "CHR '' '' \<notin> set a \<and> u \<noteq> ''KB'' \<and> u \<noteq> ''MB''"
  then show "parseSize w (a @ CHR '' '' # u) = 0" by (simp add: parseSize_unit)
qed

theorem parseSize_spec_witness:
  "FormatUint 16384 10 @ '' KB'' = ''16384 KB'' \<and> parseSize 64 ''16384 KB'' = 16384 * 1024 \<and>
   FormatUint 8 10 @ '' MB'' = ''8 MB'' \<and> parseSize 64 ''8 MB'' = 8 * (1024 * 1024) \<and>
   parseSize 64 ''16384KB'' = 0 \<and> parseSize 64 ''16384 kB'' = 0 \<and> parseSize 64 ''16384 '' = 0"
proof -
  have f: "FormatUint 16384 10 @ '' KB'' = ''16384 KB''" "FormatUint 8 10 @ '' MB'' = ''8 MB''"
    by (simp_all add: FormatUint_eval)
  have w: "(64 :: nat) = 32 \<or> (64 :: nat) = 64" by simp
  have a: "parseSize 64 ''16384 KB'' = 16384 * 1024"
    using parseSize_spec [OF w, of 16384 "''16384KB''" "''16384''" "''kB''"] f by simp
  have b: "parseSize 64 ''8 MB'' = 8 * (1024 * 1024)"
    using parseSize_spec [OF w, of 8 "''16384KB''" "''16384''" "[]"] f by simp
  have c: "parseSize 64 ''16384KB'' = 0" "parseSize 64 ''16384 kB'' = 0"
    using parseSize_spec [OF w, of 8 "''16384KB''" "''16384''" "''kB''"] by simp_all
  have d: "parseSize 64 ''16384 '' = 0"
    using parseSize_spec [OF w, of 8 "''16384KB''" "''16384''" "[]"] by simp
  from f a b c d show ?thesis by (intro conjI)
qed

text \<open>
  The claim fails where the product leaves the range of \<open>int\<close>
  (\<open>9007199254740992 * 1024 = 2 ^ 63\<close>) and on a numeral with a leading zero.
\<close>

theorem parseSize_counterexample:
  "parseSize 64 ''9007199254740992 KB'' = - 9223372036854775808 \<and>
   parseSize 64 ''010 KB'' = 8192"
  by (simp add: parseSize_def atoi_eval)

subsection \<open>The address sizes\<close>

lemma Index_first: "CHR '','' \<notin> set a \<Longrightarrow> Index (a @ '', '' @ b) '', '' = int (length a)"
  by (induction a) (auto simp: Let_def)

lemma Index_found:
  "0 \<le> Index s sep \<Longrightarrow> nat (Index s sep) \<le> length s \<and> prefix sep (drop (nat (Index s sep)) s)"
proof (induction s)
  case Nil
  then show ?case by (simp split: if_splits)
next
  case (Cons x xs)
  show ?case
  proof (cases "prefix sep (x # xs)")
    case True
    then show ?thesis by simp
  next
    case False
    with Cons.prems have nn: "0 \<le> Index xs sep" by (simp add: Let_def split: if_splits)
    with False have i: "Index (x # xs) sep = Index xs sep + 1" by (simp add: Let_def)
    have n: "nat (Index xs sep + 1) = Suc (nat (Index xs sep))" using nn by simp
    from Cons.IH [OF nn] show ?thesis unfolding i n by simp
  qed
qed

lemma Index_split:
  assumes "0 \<le> Index s sep"
  shows "\<exists>r. s = take (nat (Index s sep)) s @ sep @ r"
proof -
  from Index_found [OF assms] obtain r where "drop (nat (Index s sep)) s = sep @ r"
    by (auto simp: prefix_def)
  then have "s = take (nat (Index s sep)) s @ sep @ r"
    by (metis append_take_drop_id)
  then show ?thesis ..
qed

lemma parseAddrSizes_zero_cases:
  "parseAddrSizes w s = (0, 0) \<or>
   (0 \<le> Index s '', '' \<and> suffix '' bits physical'' (take (nat (Index s '', '')) s) \<and>
    suffix '' bits virtual'' (drop (nat (Index s '', '' + 2)) s))"
  by (simp add: parseAddrSizes_def Let_def HasSuffix_def)

lemma parseAddrSizes_no_physical:
  assumes "\<forall>a b. s \<noteq> a @ '' bits physical, '' @ b"
  shows "parseAddrSizes w s = (0, 0)"
proof (rule ccontr)
  assume "parseAddrSizes w s \<noteq> (0, 0)"
  with parseAddrSizes_zero_cases [of w s]
  have i: "0 \<le> Index s '', ''"
    and l: "suffix '' bits physical'' (take (nat (Index s '', '')) s)"
    by simp_all
  from Index_split [OF i] obtain r where r: "s = take (nat (Index s '', '')) s @ '', '' @ r" ..
  from l obtain a where a: "take (nat (Index s '', '')) s = a @ '' bits physical''"
    by (auto simp: suffix_def)
  have "s = a @ '' bits physical, '' @ r"
    by (subst r) (simp add: a)
  with assms show False by blast
qed

lemma parseAddrSizes_no_separator:
  assumes "\<forall>a b. s \<noteq> a @ '', '' @ b"
  shows "parseAddrSizes w s = (0, 0)"
proof -
  have "\<forall>a b. s \<noteq> a @ '' bits physical, '' @ b"
  proof (intro allI notI)
    fix a b assume "s = a @ '' bits physical, '' @ b"
    then have "s = (a @ '' bits physical'') @ '', '' @ b" by simp
    with assms show False by blast
  qed
  then show ?thesis by (rule parseAddrSizes_no_physical)
qed

lemma parseAddrSizes_no_virtual:
  assumes "\<not> suffix '' bits virtual'' s"
  shows "parseAddrSizes w s = (0, 0)"
proof (rule ccontr)
  assume "parseAddrSizes w s \<noteq> (0, 0)"
  with parseAddrSizes_zero_cases [of w s]
  have "suffix '' bits virtual'' (drop (nat (Index s '', '' + 2)) s)" by simp
  moreover have "suffix (drop (nat (Index s '', '' + 2)) s) s" by (rule suffix_drop)
  ultimately have "suffix '' bits virtual'' s" by (rule suffix_order.trans)
  with assms show False by simp
qed

lemma HasSuffix_append: "HasSuffix (t @ suf) suf"
  by (simp add: HasSuffix_def suffix_def)

lemma TrimSuffix_append: "TrimSuffix (t @ suf) suf = t"
  by (simp add: TrimSuffix_def HasSuffix_append)

lemma parseAddrSizes_parts:
  assumes "CHR '','' \<notin> set L" "R \<noteq> []"
  shows "parseAddrSizes w (L @ '', '' @ R) =
    (if \<not> HasSuffix L '' bits physical'' then (0, 0)
     else if \<not> HasSuffix R '' bits virtual'' then (0, 0)
     else (atoi w (TrimSuffix L '' bits physical''), atoi w (TrimSuffix R '' bits virtual'')))"
proof -
  have i: "Index (L @ '', '' @ R) '', '' = int (length L)"
    using assms(1) by (rule Index_first)
  have n: "nat (int (length L) + int (length '', '')) = length L + 2" by simp
  have t: "take (nat (int (length L))) (L @ '', '' @ R) = L" by simp
  have d: "drop (length L + 2) (L @ '', '' @ R) = R" by simp
  have e: "(int (length L) + int (length '', '') = int (length (L @ '', '' @ R))) = False"
    using assms(2) by simp
  show ?thesis
    unfolding parseAddrSizes_def Let_def i n t d e by simp
qed

lemma parseAddrSizes_form:
  assumes "CHR '','' \<notin> set l" "r \<noteq> []"
  shows "parseAddrSizes w ((l @ '' bits physical'') @ '', '' @ (r @ '' bits virtual'')) =
    (atoi w l, atoi w r)"
proof -
  have c: "CHR '','' \<notin> set (l @ '' bits physical'')" using assms(1) by simp
  have r: "r @ '' bits virtual'' \<noteq> []" by simp
  show ?thesis
    unfolding parseAddrSizes_parts [OF c r]
    by (simp only: HasSuffix_append TrimSuffix_append not_True_eq_False if_False)
qed

lemma Index_prefix: "prefix sep s \<Longrightarrow> Index s sep = 0"
  by (cases s) simp_all

lemma Index_least:
  "0 \<le> Index (a @ sep @ b) sep \<and> Index (a @ sep @ b) sep \<le> int (length a)"
proof (induction a)
  case Nil
  show ?case by (simp add: Index_prefix)
next
  case (Cons x a)
  then show ?case by (simp add: Let_def)
qed

lemma Index_first_occurrence:
  assumes s: "s = a @ sep @ b"
    and first: "\<forall>a' b'. s = a' @ sep @ b' \<longrightarrow> length a \<le> length a'"
  shows "Index s sep = int (length a)"
proof -
  from Index_least [of a sep b] have nn: "0 \<le> Index s sep" and le: "Index s sep \<le> int (length a)"
    by (simp_all add: s)
  from Index_split [OF nn] obtain r where r: "s = take (nat (Index s sep)) s @ sep @ r" ..
  with first have "length a \<le> length (take (nat (Index s sep)) s)" by blast
  then have "length a \<le> nat (Index s sep)" by simp
  then have "int (length a) \<le> Index s sep" using nn by linarith
  with le show ?thesis by simp
qed

lemma parseAddrSizes_first_separator:
  assumes s: "s = a @ '', '' @ b"
    and first: "\<forall>a' b'. s = a' @ '', '' @ b' \<longrightarrow> length a \<le> length a'"
    and miss: "\<not> suffix '' bits physical'' a \<or> \<not> suffix '' bits virtual'' b"
  shows "parseAddrSizes w s = (0, 0)"
proof -
  have i: "Index s '', '' = int (length a)"
    using s first by (rule Index_first_occurrence)
  have n: "nat (int (length a) + 2) = length a + 2" by simp
  have t: "take (nat (Index s '', '')) s = a" unfolding i by (simp add: s)
  have d: "drop (nat (Index s '', '' + 2)) s = b" unfolding i n by (simp add: s)
  from parseAddrSizes_zero_cases [of w s] miss show ?thesis
    unfolding t d by blast
qed


lemma parseAddrSizes_first_parts:
  assumes s: "s = L @ '', '' @ R"
    and first: "\<forall>a' b'. s = a' @ '', '' @ b' \<longrightarrow> length L \<le> length a'"
    and R: "R \<noteq> []"
  shows "parseAddrSizes w s =
    (if \<not> HasSuffix L '' bits physical'' then (0, 0)
     else if \<not> HasSuffix R '' bits virtual'' then (0, 0)
     else (atoi w (TrimSuffix L '' bits physical''), atoi w (TrimSuffix R '' bits virtual'')))"
proof -
  have i: "Index s '', '' = int (length L)"
    using s first by (rule Index_first_occurrence)
  have n: "nat (int (length L) + int (length '', '')) = length L + 2" by simp
  have t: "take (nat (int (length L))) s = L" by (simp add: s)
  have d: "drop (length L + 2) s = R" by (simp add: s)
  have e: "(int (length L) + int (length '', '') = int (length s)) = False"
    using R by (simp add: s)
  show ?thesis
    unfolding parseAddrSizes_def Let_def i n t d e by simp
qed

lemma parseAddrSizes_first_separator_parts:
  assumes s: "s = (x @ '' bits physical'') @ '', '' @ (y @ '' bits virtual'')"
    and first: "\<forall>a' b'. s = a' @ '', '' @ b' \<longrightarrow> length (x @ '' bits physical'') \<le> length a'"
  shows "parseAddrSizes w s = (atoi w x, atoi w y)"
proof -
  have r: "y @ '' bits virtual'' \<noteq> []" by simp
  show ?thesis
    unfolding parseAddrSizes_first_parts [OF s first r]
    by (simp only: HasSuffix_append TrimSuffix_append not_True_eq_False if_False)
qed

text \<open>
  Claim C5, as the code has it.  \<open>parseAddrSizes\<close> returns \<open>(p, v)\<close> on
  \<open><p> bits physical, <v> bits virtual\<close> when both numbers are below \<open>2 ^ (w - 1)\<close>, and
  \<open>(0, 0)\<close> on every string without the separator, on every string in which \<open>bits physical\<close>
  does not stand right before a separator, and on every string that does not end in
  \<open>bits virtual\<close>.  The separator that counts is the first one: when the text \<open>a\<close> before it
  does not end in \<open>bits physical\<close>, or the text \<open>b\<close> after it does not end in
  \<open>bits virtual\<close>, the result is \<open>(0, 0)\<close>, and otherwise it is made of the integers that
  \<open>atoi\<close> reads in what stands before the two suffixes.
\<close>

theorem parseAddrSizes_spec:
  assumes "w = 32 \<or> w = 64"
  shows "(p < 2 ^ (w - 1) \<and> v < 2 ^ (w - 1) \<longrightarrow>
       parseAddrSizes w (FormatUint p 10 @ '' bits physical, '' @ FormatUint v 10 @ '' bits virtual'')
         = (int p, int v)) \<and>
    ((\<forall>a b. s \<noteq> a @ '', '' @ b) \<longrightarrow> parseAddrSizes w s = (0, 0)) \<and>
    ((\<forall>a b. s \<noteq> a @ '' bits physical, '' @ b) \<longrightarrow> parseAddrSizes w s = (0, 0)) \<and>
    (\<not> suffix '' bits virtual'' s \<longrightarrow> parseAddrSizes w s = (0, 0)) \<and>
    (s = a @ '', '' @ b \<and> (\<forall>a' b'. s = a' @ '', '' @ b' \<longrightarrow> length a \<le> length a') \<and>
       (\<not> suffix '' bits physical'' a \<or> \<not> suffix '' bits virtual'' b) \<longrightarrow>
       parseAddrSizes w s = (0, 0)) \<and>
    (s = a @ '', '' @ b \<and> (\<forall>a' b'. s = a' @ '', '' @ b' \<longrightarrow> length a \<le> length a') \<and>
       a = x @ '' bits physical'' \<and> b = y @ '' bits virtual'' \<longrightarrow>
       parseAddrSizes w s = (atoi w x, atoi w y))"
proof (intro conjI impI)
  assume b: "p < 2 ^ (w - 1) \<and> v < 2 ^ (w - 1)"
  have e: "FormatUint p 10 @ '' bits physical, '' @ FormatUint v 10 @ '' bits virtual'' =
      (FormatUint p 10 @ '' bits physical'') @ '', '' @ (FormatUint v 10 @ '' bits virtual'')"
    by simp
  have "parseAddrSizes w ((FormatUint p 10 @ '' bits physical'') @ '', '' @
        (FormatUint v 10 @ '' bits virtual'')) =
      (atoi w (FormatUint p 10), atoi w (FormatUint v 10))"
    using FormatUint_decimal_chars(2) FormatUint_not_Nil by (rule parseAddrSizes_form)
  also have "\<dots> = (int p, int v)"
    using b by (simp add: atoi_decimal [OF assms])
  finally show "parseAddrSizes w
      (FormatUint p 10 @ '' bits physical, '' @ FormatUint v 10 @ '' bits virtual'') = (int p, int v)"
    by (simp only: e)
next
  assume "\<forall>a b. s \<noteq> a @ '', '' @ b"
  then show "parseAddrSizes w s = (0, 0)" by (rule parseAddrSizes_no_separator)
next
  assume "\<forall>a b. s \<noteq> a @ '' bits physical, '' @ b"
  then show "parseAddrSizes w s = (0, 0)" by (rule parseAddrSizes_no_physical)
next
  assume "\<not> suffix '' bits virtual'' s"
  then show "parseAddrSizes w s = (0, 0)" by (rule parseAddrSizes_no_virtual)
next
  assume h: "s = a @ '', '' @ b \<and> (\<forall>a' b'. s = a' @ '', '' @ b' \<longrightarrow> length a \<le> length a') \<and>
       (\<not> suffix '' bits physical'' a \<or> \<not> suffix '' bits virtual'' b)"
  from h [THEN conjunct1] h [THEN conjunct2, THEN conjunct1] h [THEN conjunct2, THEN conjunct2]
  show "parseAddrSizes w s = (0, 0)" by (rule parseAddrSizes_first_separator)
next
  assume h: "s = a @ '', '' @ b \<and> (\<forall>a' b'. s = a' @ '', '' @ b' \<longrightarrow> length a \<le> length a') \<and>
       a = x @ '' bits physical'' \<and> b = y @ '' bits virtual''"
  then have s: "s = (x @ '' bits physical'') @ '', '' @ (y @ '' bits virtual'')" by simp
  from h have f: "\<forall>a' b'. s = a' @ '', '' @ b' \<longrightarrow> length (x @ '' bits physical'') \<le> length a'"
    by blast
  from s f show "parseAddrSizes w s = (atoi w x, atoi w y)"
    by (rule parseAddrSizes_first_separator_parts)
qed

theorem parseAddrSizes_spec_witness:
  "FormatUint 40 10 @ '' bits physical, '' @ FormatUint 48 10 @ '' bits virtual'' =
     ''40 bits physical, 48 bits virtual'' \<and>
   parseAddrSizes 64 ''40 bits physical, 48 bits virtual'' = (40, 48) \<and>
   \<not> suffix '' bits virtual'' ''40 bits physical, 48 bits'' \<and>
   parseAddrSizes 64 ''40 bits physical, 48 bits'' = (0, 0) \<and>
   ''1, 2 bits physical, 3 bits virtual'' = ''1'' @ '', '' @ ''2 bits physical, 3 bits virtual'' \<and>
   Index ''1, 2 bits physical, 3 bits virtual'' '', '' = int (length ''1'') \<and>
   \<not> suffix '' bits physical'' ''1'' \<and>
   parseAddrSizes 64 ''1, 2 bits physical, 3 bits virtual'' = (0, 0)"
proof -
  have f: "FormatUint 40 10 @ '' bits physical, '' @ FormatUint 48 10 @ '' bits virtual'' =
      ''40 bits physical, 48 bits virtual''"
    by (simp add: FormatUint_eval)
  have w: "(64 :: nat) = 32 \<or> (64 :: nat) = 64" by simp
  have n: "\<not> suffix '' bits virtual'' ''40 bits physical, 48 bits''"
    by (simp add: suffix_to_prefix)
  note t = parseAddrSizes_spec [OF w, of 40 48 "''40 bits physical, 48 bits''"]
  have "parseAddrSizes 64
      (FormatUint 40 10 @ '' bits physical, '' @ FormatUint 48 10 @ '' bits virtual'') =
      (int 40, int 48)"
    using t [THEN conjunct1] by simp
  then have "parseAddrSizes 64 ''40 bits physical, 48 bits virtual'' = (int 40, int 48)"
    by (simp only: f)
  then have a: "parseAddrSizes 64 ''40 bits physical, 48 bits virtual'' = (40, 48)" by simp
  have b: "parseAddrSizes 64 ''40 bits physical, 48 bits'' = (0, 0)"
    using t [THEN conjunct2, THEN conjunct2, THEN conjunct2, THEN conjunct1] n by blast
  have e: "''1, 2 bits physical, 3 bits virtual'' =
      ''1'' @ '', '' @ ''2 bits physical, 3 bits virtual''" by simp
  have i: "Index ''1, 2 bits physical, 3 bits virtual'' '', '' = int (length ''1'')" by simp
  have m: "\<not> suffix '' bits physical'' ''1''" by (simp add: suffix_to_prefix)
  have first: "\<forall>a' b'. ''1, 2 bits physical, 3 bits virtual'' = a' @ '', '' @ b' \<longrightarrow>
      length ''1'' \<le> length a'"
  proof (intro allI impI)
    fix a' b' :: string
    assume "''1, 2 bits physical, 3 bits virtual'' = a' @ '', '' @ b'"
    then show "length ''1'' \<le> length a'" by (cases a') simp_all
  qed
  note u = parseAddrSizes_spec [OF w, of _ _ "''1, 2 bits physical, 3 bits virtual''" "''1''"
      "''2 bits physical, 3 bits virtual''"]
  have c: "parseAddrSizes 64 ''1, 2 bits physical, 3 bits virtual'' = (0, 0)"
    using u [THEN conjunct2, THEN conjunct2, THEN conjunct2, THEN conjunct2, THEN conjunct1]
      e first m by blast
  from f a n b e i m c show ?thesis by (intro conjI)
qed

text \<open>
  The claim fails where a number leaves the range of \<open>int\<close> and on a numeral with a leading
  zero.
\<close>

theorem parseAddrSizes_counterexample:
  "parseAddrSizes 64 ''9223372036854775808 bits physical, 48 bits virtual'' =
     (- 9223372036854775808, 48) \<and>
   parseAddrSizes 64 ''040 bits physical, 48 bits virtual'' = (32, 48)"
  by (simp add: parseAddrSizes_def HasSuffix_def TrimSuffix_def suffix_to_prefix atoi_eval)

subsection \<open>The TLB size\<close>

lemma parseTLB_no_pages: "\<not> suffix '' pages'' s \<Longrightarrow> parseTLB w s = (0, 0)"
  by (simp add: parseTLB_def HasSuffix_def)

lemma parseTLB_no_unit:
  "\<not> suffix ''K'' t \<and> \<not> suffix ''M'' t \<Longrightarrow> parseTLB w (t @ '' pages'') = (0, 0)"
  unfolding parseTLB_def TrimSuffix_append by (simp add: HasSuffix_def)

lemma parseTLB_unit:
  assumes "c = CHR ''K'' \<or> c = CHR ''M''"
  shows "parseTLB w ((t @ [c]) @ '' pages'') =
    (let i = IndexByte t CHR '' '' in
     if i < 0 \<or> i = int (length t) then (0, 0)
     else (atoi w (take (nat i) t),
           wrap w (atoi w (drop (nat (i + 1)) t) * (if c = CHR ''K'' then 1024 else 1024 * 1024))))"
  unfolding parseTLB_def TrimSuffix_append
  using assms by (auto simp: HasSuffix_def suffix_to_prefix Let_def)

lemma parseTLB_no_space:
  assumes "c = CHR ''K'' \<or> c = CHR ''M''" "CHR '' '' \<notin> set u"
  shows "parseTLB w (u @ c # '' pages'') = (0, 0)"
proof -
  have "parseTLB w ((u @ [c]) @ '' pages'') = (0, 0)"
    unfolding parseTLB_unit [OF assms(1)] by (simp add: IndexByte_notin [OF assms(2)])
  then show ?thesis by simp
qed

lemma parseTLB_form:
  assumes "c = CHR ''K'' \<or> c = CHR ''M''" "CHR '' '' \<notin> set a"
  shows "parseTLB w (a @ '' '' @ b @ c # '' pages'') =
    (atoi w a, wrap w (atoi w b * (if c = CHR ''K'' then 1024 else 1024 * 1024)))"
proof -
  have i: "IndexByte (a @ CHR '' '' # b) CHR '' '' = int (length a)"
    using assms(2) by (rule IndexByte_first)
  have d: "nat (int (length a) + 1) = Suc (length a)" by simp
  have "parseTLB w (((a @ CHR '' '' # b) @ [c]) @ '' pages'') =
    (atoi w a, wrap w (atoi w b * (if c = CHR ''K'' then 1024 else 1024 * 1024)))"
    unfolding parseTLB_unit [OF assms(1)] Let_def i d by simp
  then show ?thesis by simp
qed

text \<open>
  Claim C7, as the code has it.  \<open>parseTLB\<close> returns \<open>(n, k * 1024)\<close> on \<open><n> <k>K pages\<close> and
  \<open>(n, k * 1024 * 1024)\<close> on \<open><n> <k>M pages\<close> when \<open>n\<close> and the product are below
  \<open>2 ^ (w - 1)\<close>, and \<open>(0, 0)\<close> on every string that does not end in \<open>pages\<close> after a space, on
  every string whose text before that suffix ends neither in \<open>K\<close> nor in \<open>M\<close>, and on every
  string with no space before the unit character.
\<close>

theorem parseTLB_spec:
  assumes "w = 32 \<or> w = 64"
  shows "(n < 2 ^ (w - 1) \<and> int k * 1024 < 2 ^ (w - 1) \<longrightarrow>
       parseTLB w (FormatUint n 10 @ '' '' @ FormatUint k 10 @ ''K pages'') = (int n, int k * 1024)) \<and>
    (n < 2 ^ (w - 1) \<and> int k * (1024 * 1024) < 2 ^ (w - 1) \<longrightarrow>
       parseTLB w (FormatUint n 10 @ '' '' @ FormatUint k 10 @ ''M pages'') =
         (int n, int k * (1024 * 1024))) \<and>
    (\<not> suffix '' pages'' s \<longrightarrow> parseTLB w s = (0, 0)) \<and>
    (\<not> suffix ''K'' t \<and> \<not> suffix ''M'' t \<longrightarrow> parseTLB w (t @ '' pages'') = (0, 0)) \<and>
    ((c = CHR ''K'' \<or> c = CHR ''M'') \<and> CHR '' '' \<notin> set u \<longrightarrow>
       parseTLB w (u @ c # '' pages'') = (0, 0))"
proof (intro conjI impI)
  assume b: "n < 2 ^ (w - 1) \<and> int k * 1024 < 2 ^ (w - 1)"
  then have k: "k < 2 ^ (w - 1)" by (intro nat_less_of_int_less [of k 1024]) simp_all
  have p: "wrap w (int k * 1024) = int k * 1024"
    using assms b by (intro wrap_product) simp_all
  have "parseTLB w (FormatUint n 10 @ '' '' @ FormatUint k 10 @ CHR ''K'' # '' pages'') =
      (atoi w (FormatUint n 10), wrap w (atoi w (FormatUint k 10) * 1024))"
    using parseTLB_form [OF _ FormatUint_decimal_chars(1), of "CHR ''K''" w n "FormatUint k 10"]
    by simp
  then show "parseTLB w (FormatUint n 10 @ '' '' @ FormatUint k 10 @ ''K pages'') =
      (int n, int k * 1024)"
    using b k p by (simp add: atoi_decimal [OF assms])
next
  assume b: "n < 2 ^ (w - 1) \<and> int k * (1024 * 1024) < 2 ^ (w - 1)"
  then have k: "k < 2 ^ (w - 1)" by (intro nat_less_of_int_less [of k "1024 * 1024"]) simp_all
  have p: "wrap w (int k * (1024 * 1024)) = int k * (1024 * 1024)"
    using assms b by (intro wrap_product) simp_all
  have "parseTLB w (FormatUint n 10 @ '' '' @ FormatUint k 10 @ CHR ''M'' # '' pages'') =
      (atoi w (FormatUint n 10), wrap w (atoi w (FormatUint k 10) * (1024 * 1024)))"
    using parseTLB_form [OF _ FormatUint_decimal_chars(1), of "CHR ''M''" w n "FormatUint k 10"]
    by simp
  then show "parseTLB w (FormatUint n 10 @ '' '' @ FormatUint k 10 @ ''M pages'') =
      (int n, int k * (1024 * 1024))"
    using b k p by (simp add: atoi_decimal [OF assms])
next
  assume "\<not> suffix '' pages'' s"
  then show "parseTLB w s = (0, 0)" by (rule parseTLB_no_pages)
next
  assume "\<not> suffix ''K'' t \<and> \<not> suffix ''M'' t"
  then show "parseTLB w (t @ '' pages'') = (0, 0)" by (rule parseTLB_no_unit)
next
  assume "(c = CHR ''K'' \<or> c = CHR ''M'') \<and> CHR '' '' \<notin> set u"
  then show "parseTLB w (u @ c # '' pages'') = (0, 0)" by (simp add: parseTLB_no_space)
qed

theorem parseTLB_spec_witness:
  "FormatUint 1024 10 @ '' '' @ FormatUint 4 10 @ ''K pages'' = ''1024 4K pages'' \<and>
   parseTLB 64 ''1024 4K pages'' = (1024, 4 * 1024) \<and>
   FormatUint 512 10 @ '' '' @ FormatUint 2 10 @ ''M pages'' = ''512 2M pages'' \<and>
   parseTLB 64 ''512 2M pages'' = (512, 2 * (1024 * 1024)) \<and>
   parseTLB 64 ''1024 4K'' = (0, 0) \<and> parseTLB 64 ''1024 4 pages'' = (0, 0) \<and>
   parseTLB 64 ''10244K pages'' = (0, 0)"
proof -
  have f: "FormatUint 1024 10 @ '' '' @ FormatUint 4 10 @ ''K pages'' = ''1024 4K pages''"
    "FormatUint 512 10 @ '' '' @ FormatUint 2 10 @ ''M pages'' = ''512 2M pages''"
    by (simp_all add: FormatUint_eval)
  have w: "(64 :: nat) = 32 \<or> (64 :: nat) = 64" by simp
  have "parseTLB 64 (FormatUint 1024 10 @ '' '' @ FormatUint 4 10 @ ''K pages'') =
      (int 1024, int 4 * 1024)"
    using parseTLB_spec [OF w, of 1024 4 "''1024 4K''" "''1024 4''" "CHR ''K''" "''1024''",
        THEN conjunct1]
    by simp
  then have "parseTLB 64 ''1024 4K pages'' = (int 1024, int 4 * 1024)"
    by (simp only: f)
  then have a: "parseTLB 64 ''1024 4K pages'' = (1024, 4 * 1024)" by simp
  have "parseTLB 64 (FormatUint 512 10 @ '' '' @ FormatUint 2 10 @ ''M pages'') =
      (int 512, int 2 * (1024 * 1024))"
    using parseTLB_spec [OF w, of 512 2 "''1024 4K''" "''1024 4''" "CHR ''K''" "''1024''",
        THEN conjunct2, THEN conjunct1]
    by simp
  then have "parseTLB 64 ''512 2M pages'' = (int 512, int 2 * (1024 * 1024))"
    by (simp only: f)
  then have b: "parseTLB 64 ''512 2M pages'' = (512, 2 * (1024 * 1024))" by simp
  have c: "parseTLB 64 ''1024 4K'' = (0, 0)"
    using parseTLB_spec [OF w, of 512 2 "''1024 4K''" "''1024 4''" "CHR ''K''" "''1024''"]
    by (simp add: suffix_to_prefix)
  have d: "parseTLB 64 ''1024 4 pages'' = (0, 0)"
    using parseTLB_spec [OF w, of 512 2 "''1024 4K''" "''1024 4''" "CHR ''K''" "''1024''"]
    by (simp add: suffix_to_prefix)
  have e: "parseTLB 64 ''10244K pages'' = (0, 0)"
    using parseTLB_spec [OF w, of 512 2 "''1024 4K''" "''1024 4''" "CHR ''K''" "''10244''"]
    by simp
  from f a b c d e show ?thesis by (intro conjI)
qed

text \<open>
  The claim fails where the page size leaves the range of \<open>int\<close> and on a numeral with a
  leading zero.
\<close>

theorem parseTLB_counterexample:
  "parseTLB 64 ''1024 9007199254740992K pages'' = (1024, - 9223372036854775808) \<and>
   parseTLB 64 ''010 4K pages'' = (8, 4096)"
  by (simp add: parseTLB_def HasSuffix_def TrimSuffix_def suffix_to_prefix atoi_eval)

end
